theory Spec2Isabelle
  imports Main "HOL-Library.Multiset" "HOL-Library.AList" "HOL-Library.List_Lexorder"
    "HOL-Library.Char_ord"
begin

section \<open>Values\<close>

text \<open>
  The engine stores and returns JSON-like JavaScript values (the source types them
  \<^verbatim>\<open>Unknown = Record<string, unknown>\<close>). Numbers are modelled as integers. An object is
  the list of its own enumerable properties in insertion order.
\<close>

datatype json =
    JUndef
  | JNull
  | JBool bool
  | JNum int
  | JStr string
  | JArr "json list"
  | JObj "(string \<times> json) list"

text \<open>Structural measure used for the termination proofs: the number of array and object
  nodes above a value.\<close>

fun jsize :: "json \<Rightarrow> nat" where
  "jsize (JArr xs) = Suc (sum_list (map jsize xs))"
| "jsize (JObj kvs) = Suc (sum_list (map (\<lambda>kv. jsize (snd kv)) kvs))"
| "jsize v = 0"

definition nullish :: "json \<Rightarrow> bool" where
  "nullish v = (v = JUndef \<or> v = JNull)"

fun is_array :: "json \<Rightarrow> bool" where
  "is_array (JArr xs) = True"
| "is_array v = False"

text \<open>\<^verbatim>\<open>typeof v === 'object'\<close> holds for objects, arrays and \<^verbatim>\<open>null\<close>.\<close>

fun typeof_object :: "json \<Rightarrow> bool" where
  "typeof_object JNull = True"
| "typeof_object (JArr xs) = True"
| "typeof_object (JObj kvs) = True"
| "typeof_object v = False"

fun typeof_string :: "json \<Rightarrow> bool" where
  "typeof_string (JStr s) = True"
| "typeof_string v = False"

text \<open>JavaScript truthiness (\<^verbatim>\<open>!!v\<close>).\<close>

fun truthy :: "json \<Rightarrow> bool" where
  "truthy JUndef = False"
| "truthy JNull = False"
| "truthy (JBool b) = b"
| "truthy (JNum n) = (n \<noteq> 0)"
| "truthy (JStr s) = (s \<noteq> [])"
| "truthy v = True"

text \<open>\<^verbatim>\<open>asArray\<close> (as-array.function.ts).\<close>

fun asArray :: "json \<Rightarrow> json list" where
  "asArray (JArr xs) = xs"
| "asArray v = [v]"

text \<open>Decimal rendering of an array index, as used for the property names of arrays and
  strings.\<close>

fun key_of_nat :: "nat \<Rightarrow> string" where
  "key_of_nat n =
     (if n < 10 then [char_of (48 + n)]
      else key_of_nat (n div 10) @ [char_of (48 + n mod 10)])"

text \<open>The own enumerable properties of a value, in the order \<^verbatim>\<open>Object.keys\<close>, the spread
  \<^verbatim>\<open>{ ...v }\<close> and \<^verbatim>\<open>Object.assign({}, v)\<close> visit them: the fields of an object, the
  indexed elements of an array, the indexed characters of a string, and nothing for the other
  primitives.\<close>

fun own_props :: "json \<Rightarrow> (string \<times> json) list" where
  "own_props (JObj kvs) = kvs"
| "own_props (JArr xs) = zip (map key_of_nat [0..<length xs]) xs"
| "own_props (JStr s) = zip (map key_of_nat [0..<length s]) (map (\<lambda>c. JStr [c]) s)"
| "own_props v = []"

fun own_length :: "json \<Rightarrow> json option" where
  "own_length (JArr xs) = Some (JNum (int (length xs)))"
| "own_length (JStr s) = Some (JNum (int (length s)))"
| "own_length v = None"

text \<open>\<^verbatim>\<open>v.hasOwnProperty(k)\<close> and \<^verbatim>\<open>v[k]\<close> for a receiver that is not \<^verbatim>\<open>null\<close> or
  \<^verbatim>\<open>undefined\<close> (on those both raise a TypeError, which every caller below checks first).
  Inherited properties are not modelled.\<close>

definition has_own :: "json \<Rightarrow> string \<Rightarrow> bool" where
  "has_own v k = (map_of (own_props v) k \<noteq> None \<or> (k = ''length'' \<and> own_length v \<noteq> None))"

definition js_get :: "json \<Rightarrow> string \<Rightarrow> json" where
  "js_get v k =
     (case map_of (own_props v) k of
        Some x \<Rightarrow> x
      | None \<Rightarrow> (if k = ''length'' then (case own_length v of Some n \<Rightarrow> n | None \<Rightarrow> JUndef)
                 else JUndef))"

section \<open>Identity extraction (database service, \<^verbatim>\<open>extractUuid\<close>)\<close>

definition idKey :: string where
  "idKey = ''__pkey__''"

definition storeKey :: string where
  "storeKey = ''__store__''"

fun intercalate :: "string \<Rightarrow> string list \<Rightarrow> string" where
  "intercalate sep [] = []"
| "intercalate sep [x] = x"
| "intercalate sep (x # y # ys) = x @ sep @ intercalate sep (y # ys)"

text \<open>\<^verbatim>\<open>String(v)\<close>.\<close>

fun js_String :: "json \<Rightarrow> string" where
  "js_String JUndef = ''undefined''"
| "js_String JNull = ''null''"
| "js_String (JBool b) = (if b then ''true'' else ''false'')"
| "js_String (JNum n) = (if n < 0 then CHR ''-'' # key_of_nat (nat (- n)) else key_of_nat (nat n))"
| "js_String (JStr s) = s"
| "js_String (JArr xs) = intercalate '','' (map (\<lambda>x. if nullish x then [] else js_String x) xs)"
| "js_String (JObj kvs) = ''[object Object]''"

definition is_hex :: "char \<Rightarrow> bool" where
  "is_hex c = (c \<in> set ''0123456789abcdefABCDEF'')"

text \<open>The regular expression \<^verbatim>\<open>uuidRegExp\<close> matched at the start of a string: groups of
  8, 4, 4, 4 and 12 hexadecimal digits separated by dashes (each \<^verbatim>\<open>\b\<close> of the expression
  stands between a digit and a dash, where it always holds).\<close>

definition uuid_at :: "string \<Rightarrow> bool" where
  "uuid_at s =
     (36 \<le> length s
      \<and> list_all is_hex (take 8 s) \<and> s ! 8 = CHR ''-''
      \<and> list_all is_hex (take 4 (drop 9 s)) \<and> s ! 13 = CHR ''-''
      \<and> list_all is_hex (take 4 (drop 14 s)) \<and> s ! 18 = CHR ''-''
      \<and> list_all is_hex (take 4 (drop 19 s)) \<and> s ! 23 = CHR ''-''
      \<and> list_all is_hex (take 12 (drop 24 s)))"

fun first_uuid :: "string \<Rightarrow> string option" where
  "first_uuid [] = None"
| "first_uuid (c # cs) = (if uuid_at (c # cs) then Some (take 36 (c # cs)) else first_uuid cs)"

definition extractUuid :: "json \<Rightarrow> json" where
  "extractUuid ident =
     (case first_uuid (js_String ident) of Some u \<Rightarrow> JStr u | None \<Rightarrow> ident)"

section \<open>Tag stripping (database service, \<^verbatim>\<open>removeGeneratedIdKeyFromContent\<close>)\<close>

lemma jsize_elem: "x \<in> set xs \<Longrightarrow> jsize x < jsize (JArr xs)"
  by (induction xs) auto

lemma jsize_field: "(k, v) \<in> set kvs \<Longrightarrow> jsize v < jsize (JObj kvs)"
  by (induction kvs) auto

lemma jsize_own_props:
  "(k, v) \<in> set (own_props item) \<Longrightarrow> is_array v \<or> typeof_object v \<Longrightarrow> jsize v < jsize item"
proof (cases item)
  case (JStr s)
  assume "(k, v) \<in> set (own_props item)" and "is_array v \<or> typeof_object v"
  with JStr have "v \<in> set (map (\<lambda>c. JStr [c]) s)"
    by (auto dest: set_zip_rightD)
  with \<open>is_array v \<or> typeof_object v\<close> show ?thesis by auto
next
  case (JArr xs)
  assume "(k, v) \<in> set (own_props item)"
  with JArr have "v \<in> set xs" by (auto dest: set_zip_rightD)
  with JArr show ?thesis by (simp add: jsize_elem del: jsize.simps)
next
  case (JObj kvs)
  assume "(k, v) \<in> set (own_props item)"
  with JObj show ?thesis by (simp add: jsize_field del: jsize.simps)
qed auto

function removeGeneratedIdKeyFromContent :: "json \<Rightarrow> json"
  and cleanNested :: "json \<Rightarrow> json" where
  "removeGeneratedIdKeyFromContent content =
     (case content of JArr xs \<Rightarrow> JArr (map cleanNested xs) | _ \<Rightarrow> cleanNested content)"
| "cleanNested item =
     JObj (AList.delete storeKey (AList.delete idKey
       (map (\<lambda>(k, v).
               (k, if is_array v \<or> (typeof_object v \<and> truthy v)
                   then removeGeneratedIdKeyFromContent v else v))
            (own_props item))))"
  by pat_completeness auto
termination
  by (relation "measure (\<lambda>x. case x of Inl c \<Rightarrow> 2 * jsize c + 1 | Inr i \<Rightarrow> 2 * jsize i)")
     (auto dest: jsize_elem jsize_own_props)

section \<open>Faults\<close>

text \<open>Every exception and every error notification of the source is a value of this type.
  \<open>DOMException\<close> carries the name of an exception raised by the storage engine itself
  (\<^verbatim>\<open>DataError\<close>, \<^verbatim>\<open>NotFoundError\<close>, ...); the other constructors are the JavaScript
  \<^verbatim>\<open>TypeError\<close> and the error classes of the repository with their constructor arguments.\<close>

datatype fault =
    TypeError
  | DOMException string
  | NoPrimaryKeyInObjectError string string
  | NoPrimaryKeyInSettingsError string
  | IndexedDBAddError string "string list"
  | IndexedDBStoreError string
  | IndexedDBDeleteError string json
  | IndexedDBAccessError string

section \<open>Pagination (retrieve service, \<^verbatim>\<open>paginateContent\<close>)\<close>

record RetrieveByPageOptions =
  page :: int
  pageSize :: int
  pagination :: "bool option"

text \<open>\<^verbatim>\<open>Array.prototype.slice(start, end)\<close>: negative indices count from the end, and
  both bounds are clamped to the array.\<close>

definition js_slice :: "'a list \<Rightarrow> int \<Rightarrow> int \<Rightarrow> 'a list" where
  "js_slice xs start fin =
     (let n = int (length xs);
          k = (if start < 0 then max (n + start) 0 else min start n);
          f = (if fin < 0 then max (n + fin) 0 else min fin n)
      in take (nat (f - k)) (drop (nat k) xs))"

definition paginateContent :: "'a list \<Rightarrow> RetrieveByPageOptions option \<Rightarrow> 'a list" where
  "paginateContent content options =
     (let start = (case options of Some opts \<Rightarrow> (page opts - 1) * pageSize opts | None \<Rightarrow> - 1);
          fin = (case options of Some opts \<Rightarrow> start + pageSize opts | None \<Rightarrow> 0)
      in if (case options of Some opts \<Rightarrow> pagination opts = Some False | None \<Rightarrow> False)
         then content
         else if 0 \<le> start then
           (case options of
              Some opts \<Rightarrow>
                if int (length content) \<le> pageSize opts then content
                else js_slice content start fin
            | None \<Rightarrow> content)
         else content)"
section \<open>Sorting (retrieve service, \<^verbatim>\<open>sortContent\<close>)\<close>

text \<open>\<^verbatim>\<open>column.split('.')\<close>.\<close>

fun split_on :: "char \<Rightarrow> string \<Rightarrow> string list" where
  "split_on c [] = [[]]"
| "split_on c (x # xs) =
     (if x = c then [] # split_on c xs
      else (case split_on c xs of w # ws \<Rightarrow> (x # w) # ws | [] \<Rightarrow> [[x]]))"

text \<open>The loop over the elements of a nested array in \<^verbatim>\<open>getComparisonValue\<close>: the first
  truthy match is returned; an exception raised on the way propagates; without a match the
  caller falls through to its final \<^verbatim>\<open>return item\<close>.\<close>

fun first_truthy :: "(fault + json) list \<Rightarrow> json \<Rightarrow> fault + json" where
  "first_truthy [] item = Inr item"
| "first_truthy (Inl e # rs) item = Inl e"
| "first_truthy (Inr v # rs) item = (if truthy v then Inr v else first_truthy rs item)"

fun getComparisonValue :: "json \<Rightarrow> string list \<Rightarrow> fault + json" where
  "getComparisonValue item [] = Inr item"
| "getComparisonValue item (p # ps) =
     (if nullish item then Inl TypeError
      else if \<not> has_own item p then Inr item
      else if ps \<noteq> [] \<and> typeof_object (js_get item p) then
        (case js_get item p of
           JArr xs \<Rightarrow> first_truthy (map (\<lambda>nested. getComparisonValue nested ps) xs) item
         | v \<Rightarrow> getComparisonValue v ps)
      else if ps = [] then Inr (js_get item p)
      else Inr item)"

text \<open>The relational operator \<^verbatim>\<open>a < b\<close> of JavaScript. Both operands are converted to
  primitives first: an array or a plain object becomes its string (\<^verbatim>\<open>toString\<close>). Two
  strings are compared by their character codes. Every other pair is compared as numbers:
  \<^verbatim>\<open>undefined\<close> is \<^verbatim>\<open>NaN\<close>, \<^verbatim>\<open>null\<close> is 0, \<^verbatim>\<open>false\<close> and \<^verbatim>\<open>true\<close> are 0 and 1, and a
  string is read as a numeric literal (\<^verbatim>\<open>StringToNumber\<close>: surrounding white space, an
  optional sign, \<^verbatim>\<open>Infinity\<close> or decimal digits with fraction and exponent, or an unsigned
  hexadecimal, octal or binary integer; the empty string is 0, anything else \<^verbatim>\<open>NaN\<close>). A
  comparison with \<^verbatim>\<open>NaN\<close> is false. A finite number is kept exactly, as an integer times a
  power of ten; the rounding of JavaScript's double precision numbers is not modelled.\<close>

datatype number = Finite int int | PlusInfinity | MinusInfinity | NaN

definition toPrimitive :: "json \<Rightarrow> json" where
  "toPrimitive v = (case v of JArr xs \<Rightarrow> JStr (js_String v) | JObj kvs \<Rightarrow> JStr (js_String v) | _ \<Rightarrow> v)"

definition is_space :: "char \<Rightarrow> bool" where
  "is_space c = (c \<in> set [CHR 0x09, CHR 0x0A, CHR 0x0B, CHR 0x0C, CHR 0x0D, CHR 0x20, CHR 0xA0])"

definition trim :: "string \<Rightarrow> string" where
  "trim s = rev (dropWhile is_space (rev (dropWhile is_space s)))"

definition digit_of :: "nat \<Rightarrow> char \<Rightarrow> nat option" where
  "digit_of radix c =
     (let n = (of_char c :: nat);
          d = (if 48 \<le> n \<and> n \<le> 57 then Some (n - 48)
               else if 97 \<le> n \<and> n \<le> 102 then Some (n - 87)
               else if 65 \<le> n \<and> n \<le> 70 then Some (n - 55)
               else None)
      in case d of Some v \<Rightarrow> (if v < radix then Some v else None) | None \<Rightarrow> None)"

fun digits_value :: "nat \<Rightarrow> string \<Rightarrow> nat \<Rightarrow> nat option" where
  "digits_value radix [] acc = Some acc"
| "digits_value radix (c # cs) acc =
     (case digit_of radix c of
        None \<Rightarrow> None
      | Some d \<Rightarrow> digits_value radix cs (acc * radix + d))"

definition natural :: "nat \<Rightarrow> string \<Rightarrow> nat option" where
  "natural radix s = (if s = [] then None else digits_value radix s 0)"

text \<open>The exponent part (\<^verbatim>\<open>e\<close> or \<^verbatim>\<open>E\<close>, an optional sign, digits), and the digits around
  the decimal point, returned as an integer and the number of fraction digits.\<close>

definition exponentPart :: "string \<Rightarrow> int option" where
  "exponentPart s =
     (case s of
        [] \<Rightarrow> Some 0
      | e # rest \<Rightarrow>
          (case rest of
             [] \<Rightarrow> None
           | c # cs \<Rightarrow>
               if c = CHR ''-'' then map_option (\<lambda>n. - int n) (natural 10 cs)
               else if c = CHR ''+'' then map_option int (natural 10 cs)
               else map_option int (natural 10 rest)))"

definition mantissaPart :: "string \<Rightarrow> string \<Rightarrow> (int \<times> int) option" where
  "mantissaPart whole fraction =
     (case fraction of
        [] \<Rightarrow> map_option (\<lambda>n. (int n, 0)) (natural 10 whole)
      | point # digits \<Rightarrow>
          if whole = [] \<and> digits = [] then None
          else
            (case (if whole = [] then Some 0 else natural 10 whole,
                   if digits = [] then Some 0 else natural 10 digits) of
               (Some w, Some f) \<Rightarrow> Some (int (w * 10 ^ length digits + f), int (length digits))
             | _ \<Rightarrow> None))"

definition unsignedDecimal :: "string \<Rightarrow> number" where
  "unsignedDecimal s =
     (if s = ''Infinity'' then PlusInfinity
      else
        (let mantissa = takeWhile (\<lambda>c. c \<noteq> CHR ''e'' \<and> c \<noteq> CHR ''E'') s;
             whole = takeWhile (\<lambda>c. c \<noteq> CHR ''.'') mantissa
         in case (exponentPart (drop (length mantissa) s),
                  mantissaPart whole (drop (length whole) mantissa)) of
              (Some e, Some (m, scale)) \<Rightarrow> Finite m (e - scale)
            | _ \<Rightarrow> NaN))"

fun negate :: "number \<Rightarrow> number" where
  "negate (Finite m e) = Finite (- m) e"
| "negate PlusInfinity = MinusInfinity"
| "negate MinusInfinity = PlusInfinity"
| "negate NaN = NaN"

definition radixPrefix :: "string \<Rightarrow> nat option" where
  "radixPrefix s =
     (if take 2 s \<in> {''0x'', ''0X''} then Some 16
      else if take 2 s \<in> {''0o'', ''0O''} then Some 8
      else if take 2 s \<in> {''0b'', ''0B''} then Some 2
      else None)"

definition stringToNumber :: "string \<Rightarrow> number" where
  "stringToNumber s =
     (let t = trim s in
      if t = [] then Finite 0 0
      else
        (case radixPrefix t of
           Some radix \<Rightarrow>
             (case natural radix (drop 2 t) of Some n \<Rightarrow> Finite (int n) 0 | None \<Rightarrow> NaN)
         | None \<Rightarrow>
             if hd t = CHR ''-'' then negate (unsignedDecimal (tl t))
             else if hd t = CHR ''+'' then unsignedDecimal (tl t)
             else unsignedDecimal t))"

fun toNumber :: "json \<Rightarrow> number" where
  "toNumber JUndef = NaN"
| "toNumber JNull = Finite 0 0"
| "toNumber (JBool b) = Finite (if b then 1 else 0) 0"
| "toNumber (JNum n) = Finite n 0"
| "toNumber (JStr s) = stringToNumber s"
| "toNumber v = stringToNumber (js_String v)"

fun number_lt :: "number \<Rightarrow> number \<Rightarrow> bool" where
  "number_lt (Finite m e) (Finite n f) =
     (m * 10 ^ nat (e - min e f) < n * 10 ^ nat (f - min e f))"
| "number_lt NaN y = False"
| "number_lt x NaN = False"
| "number_lt x MinusInfinity = False"
| "number_lt MinusInfinity y = True"
| "number_lt PlusInfinity y = False"
| "number_lt x PlusInfinity = True"

definition js_lt :: "json \<Rightarrow> json \<Rightarrow> bool" where
  "js_lt a b =
     (case (toPrimitive a, toPrimitive b) of
        (JStr s, JStr t) \<Rightarrow> s < t
      | (p, q) \<Rightarrow> number_lt (toNumber p) (toNumber q))"

definition compare :: "json \<Rightarrow> json \<Rightarrow> bool \<Rightarrow> int" where
  "compare a b ascending = (if js_lt a b then - 1 else 1) * (if ascending then 1 else - 1)"

text \<open>\<^verbatim>\<open>Array.prototype.sort(cmp)\<close> belongs to the JavaScript engine. ECMAScript fixes two
  things: \<^verbatim>\<open>undefined\<close> elements go last without being passed to the comparator, and the
  result holds the same elements. The order of the others is fixed only for a consistent
  comparator, and the comparator of the source is never consistent, since it never answers
  0. The sort of the defined elements is therefore a parameter of the model (\<open>sorter\<close>
  below); what the theorems need of it is stated there.\<close>

type_synonym sort_engine = "(json \<Rightarrow> json \<Rightarrow> int) \<Rightarrow> json list \<Rightarrow> json list"

definition array_sort :: "sort_engine \<Rightarrow> (json \<Rightarrow> json \<Rightarrow> int) \<Rightarrow> json list \<Rightarrow> json list" where
  "array_sort sorter cmp xs = sorter cmp (filter (\<lambda>x. x \<noteq> JUndef) xs) @ filter (\<lambda>x. x = JUndef) xs"

text \<open>One engine: insertion from left to right, each element being placed in front of the
  first element already placed for which the comparator answers negative, the new element
  being its first argument. (V8 asks the same question when it inserts into a short array,
  but finds the place by binary search and reverses a descending run first; on the arrays
  evaluated below both give the same result.)\<close>

fun insert_sorted :: "('a \<Rightarrow> 'a \<Rightarrow> int) \<Rightarrow> 'a \<Rightarrow> 'a list \<Rightarrow> 'a list" where
  "insert_sorted cmp x [] = [x]"
| "insert_sorted cmp x (y # ys) =
     (if cmp x y < 0 then x # y # ys else y # insert_sorted cmp x ys)"

definition insertionSort :: "('a \<Rightarrow> 'a \<Rightarrow> int) \<Rightarrow> 'a list \<Rightarrow> 'a list" where
  "insertionSort cmp xs = foldl (\<lambda>acc x. insert_sorted cmp x acc) [] xs"

record RetrieveBySortingOptions =
  column :: string
  direction :: "string option"

text \<open>The value the comparator reads from a row. \<^verbatim>\<open>sortContent\<close> below raises the
  TypeError of a failing \<^verbatim>\<open>getComparisonValue\<close> before sorting, so the second branch is
  never used by it.\<close>

definition comparisonValue :: "string list \<Rightarrow> json \<Rightarrow> json" where
  "comparisonValue path item = (case getComparisonValue item path of Inr v \<Rightarrow> v | Inl e \<Rightarrow> JUndef)"

text \<open>\<^verbatim>\<open>sortContent\<close>. The comparator is called when at least two rows are defined, and then
  on every defined row (a sort cannot place a row it has not compared), so an exception of
  \<^verbatim>\<open>getComparisonValue\<close> on such a row aborts the sort. The side effect on the per-store
  result counter is not part of this model.\<close>

definition sortContent ::
  "sort_engine \<Rightarrow> json list \<Rightarrow> RetrieveBySortingOptions option \<Rightarrow> fault + json list" where
  "sortContent sorter content options =
     (case options of
        None \<Rightarrow> Inr content
      | Some opts \<Rightarrow>
          if column opts = [] then Inr content
          else
            (let path = split_on CHR ''.'' (column opts);
                 defined = filter (\<lambda>x. x \<noteq> JUndef) content
             in if length defined < 2 then Inr (defined @ filter (\<lambda>x. x = JUndef) content)
                else if list_ex (\<lambda>x. isl (getComparisonValue x path)) defined then Inl TypeError
                else Inr (array_sort sorter
                            (\<lambda>a b. compare (comparisonValue path a) (comparisonValue path b)
                                     (direction opts = Some ''asc''))
                            content)))"

fun is_num :: "json \<Rightarrow> bool" where
  "is_num (JNum n) = True"
| "is_num v = False"


text \<open>What the theorems ask of an engine's sort. The result is a permutation of the array,
  whatever the comparator. A comparator follows a relation \<open>le\<close> when a negative answer for
  \<open>(a, b)\<close> is given only if \<open>le a b\<close>, and any other answer only if \<open>le b a\<close>. An engine
  \<^emph>\<open>sorts\<close> when, for every comparator that follows a transitive relation on the elements of
  the array, the result is ordered by that relation. (Merge sort and insertion sort, with
  linear or binary search, do: each move is justified by one answer.)\<close>

definition sorts :: "sort_engine \<Rightarrow> bool" where
  "sorts sorter =
     ((\<forall>cmp xs. mset (sorter cmp xs) = mset xs)
      \<and> (\<forall>cmp xs le.
            (\<forall>a\<in>set xs. \<forall>b\<in>set xs. \<forall>c\<in>set xs. le a b \<and> le b c \<longrightarrow> le a c)
            \<and> (\<forall>a\<in>set xs. \<forall>b\<in>set xs. if cmp a b < 0 then le a b else le b a)
            \<longrightarrow> sorted_wrt le (sorter cmp xs)))"

text \<open>An engine \<^emph>\<open>keeps ties\<close> when, for a comparator that answers negative exactly where a
  strict weak order \<open>lt\<close> holds, the elements that \<open>lt\<close> does not tell apart keep their
  order. This is stability for an engine that only asks whether the answer is negative,
  as the insertion above does.\<close>

definition keeps_ties :: "sort_engine \<Rightarrow> bool" where
  "keeps_ties sorter =
     (\<forall>cmp xs lt.
        (\<forall>a\<in>set xs. \<forall>b\<in>set xs. (cmp a b < 0) = lt a b)
        \<and> (\<forall>a\<in>set xs. \<forall>b\<in>set xs. lt a b \<longrightarrow> \<not> lt b a)
        \<and> (\<forall>a\<in>set xs. \<forall>b\<in>set xs. \<forall>c\<in>set xs. lt a c \<longrightarrow> lt a b \<or> lt b c)
        \<longrightarrow> (\<forall>r\<in>set xs. filter (\<lambda>a. \<not> lt r a \<and> \<not> lt a r) (sorter cmp xs)
                            = filter (\<lambda>a. \<not> lt r a \<and> \<not> lt a r) xs))"

text \<open>The values that \<^verbatim>\<open><\<close> orders: whenever \<open>a < c\<close>, every \<open>b\<close> is above \<open>a\<close> or below \<open>c\<close>.
  Numbers are, and strings are; a column that mixes strings with numbers, or holds
  \<^verbatim>\<open>undefined\<close> or an object, need not be.\<close>

definition weakly_ordered :: "json list \<Rightarrow> bool" where
  "weakly_ordered vs =
     (\<forall>a\<in>set vs. \<forall>b\<in>set vs. \<forall>c\<in>set vs. js_lt a c \<longrightarrow> js_lt a b \<or> js_lt b c)"


section \<open>Collection options and the schema registry (database service)\<close>

text \<open>\<^verbatim>\<open>TtDeleteCascade\<close> and \<^verbatim>\<open>TtPersistenceOptions\<close>. A missing \<^verbatim>\<open>linkedKeys\<close> map is the
  empty list; triggers are outside the claims and left out.\<close>

datatype TtDeleteCascade = NULL | UNDEFINED | DELETE | KEEP

datatype TtPersistenceOptions =
  Options (storeName: string) (primaryKey: string) (uniqueKeys: "string list")
    (linkedKeys: "(string \<times> TtPersistenceOptions) list")
    (storeContent: "bool option") (cascade: "TtDeleteCascade option")

text \<open>JavaScript \<^verbatim>\<open>Map\<close>s are association lists in insertion order; \<^verbatim>\<open>Map.set\<close> is
  \<^const>\<open>AList.update\<close> (an existing key keeps its position, a new key goes last). An object
  store is the list of its rows by primary key (the value at the key path \<^verbatim>\<open>__pkey__\<close>).\<close>

type_synonym StringMap = "(string \<times> string) list"
type_synonym LinkMap = "(string \<times> StringMap) list"
type_synonym OptionsMap = "(string \<times> TtPersistenceOptions) list"
type_synonym QueueMap = "(string \<times> json list) list"
type_synonym ObjectStore = "(json \<times> json) list"
type_synonym Database = "(string \<times> ObjectStore) list"

text \<open>The subject \<^verbatim>\<open>indexedDb$\<close> of the database service, which every operation but
  \<^verbatim>\<open>persist\<close> subscribes to through \<^verbatim>\<open>database$\<close>: it holds \<^verbatim>\<open>undefined\<close> until a database
  has been opened, then the open database, and it is errored once an open request has
  failed.\<close>

datatype connection = Unopened | Opened | Errored

text \<open>The process-wide state of the database service together with the database:
  the settings version, the options and link maps, the \<^verbatim>\<open>StorageMap\<close> of the
  registered object stores with their index key paths, the pending \<^verbatim>\<open>mutations.update\<close>
  list, the object stores of the database, and the subject \<^verbatim>\<open>indexedDb$\<close>.\<close>

record DatabaseService =
  version :: nat
  optionsMap :: OptionsMap
  linkMap :: LinkMap
  storageMap :: "(string \<times> (string \<times> bool) list) list"
  mutationsUpdate :: "string list"
  database :: Database
  indexedDb :: connection

definition initialService :: DatabaseService where
  "initialService =
     \<lparr>version = 0, optionsMap = [], linkMap = [], storageMap = [], mutationsUpdate = [],
      database = [], indexedDb = Unopened\<rparr>"

text \<open>\<^verbatim>\<open>flattenPersistenceLinkOptions\<close>: registers the options of a store that is not known
  yet and records every linked key in the link map, recursively. The source fetches the
  property map of the store once and mutates it; since that map is stored in the link map
  before the recursive call, reading it back from the link map at every step is the same.\<close>

fun flattenPersistenceLinkOptions ::
  "TtPersistenceOptions \<Rightarrow> OptionsMap \<times> LinkMap \<Rightarrow> OptionsMap \<times> LinkMap" where
  "flattenPersistenceLinkOptions (Options name pk uniq links content casc) (om, lm) =
     fold (\<lambda>(property, linkOptions) (om', lm').
             flattenPersistenceLinkOptions linkOptions
               (om',
                AList.update name
                  (AList.update property (storeName linkOptions)
                     (case map_of lm' name of Some m \<Rightarrow> m | None \<Rightarrow> []))
                  lm'))
          links
          (if map_of om name = None
           then AList.update name (Options name pk uniq links content casc) om else om,
           lm)"

text \<open>\<^verbatim>\<open>updatePersistenceSettings\<close>. It first reloads the options map from the settings, where
  the previous call has stored every entry without its \<^verbatim>\<open>linkedKeys\<close>; then it flattens the
  new options, stores them, marks the store for a structural update (the list never holds a
  name twice) and bumps the version.\<close>

definition strip_linkedKeys :: "TtPersistenceOptions \<Rightarrow> TtPersistenceOptions" where
  "strip_linkedKeys options =
     Options (storeName options) (primaryKey options) (uniqueKeys options) []
       (storeContent options) (cascade options)"

definition updatePersistenceSettings :: "TtPersistenceOptions \<Rightarrow> DatabaseService \<Rightarrow> DatabaseService" where
  "updatePersistenceSettings options st =
     (case flattenPersistenceLinkOptions options
             (map (\<lambda>(name, stored). (name, strip_linkedKeys stored)) (optionsMap st), linkMap st) of
        (om, lm) \<Rightarrow>
          st\<lparr>optionsMap := AList.update (storeName options) options om,
             linkMap := lm,
             mutationsUpdate :=
               (if storeName options \<in> set (mutationsUpdate st) then mutationsUpdate st
                else mutationsUpdate st @ [storeName options]),
             version := version st + 1\<rparr>)"

text \<open>Membership in the \<^verbatim>\<open>Set\<close> of primary-key values seen so far is
  \<^verbatim>\<open>SameValueZero\<close>: equality on primitives, identity on objects and arrays. Two values read
  from different places of a JSON-like content are never the same object, so objects and
  arrays never count as seen.\<close>

definition same_value_zero :: "json \<Rightarrow> json \<Rightarrow> bool" where
  "same_value_zero a b = (a = b \<and> \<not> is_array a \<and> (case a of JObj kvs \<Rightarrow> False | _ \<Rightarrow> True))"

text \<open>The \<^verbatim>\<open>filter\<close> of \<^verbatim>\<open>parseContentForLinking\<close>: keeps the first item of every
  primary-key value; reading the key of \<^verbatim>\<open>null\<close> or \<^verbatim>\<open>undefined\<close> raises a TypeError.\<close>

fun dedupe :: "string \<Rightarrow> json list \<Rightarrow> json list \<Rightarrow> fault + json list" where
  "dedupe pk idSet [] = Inr []"
| "dedupe pk idSet (checkMe # rest) =
     (if nullish checkMe then Inl TypeError
      else if list_ex (same_value_zero (js_get checkMe pk)) idSet then dedupe pk idSet rest
      else (case dedupe pk (idSet @ [js_get checkMe pk]) rest of
              Inl e \<Rightarrow> Inl e
            | Inr kept \<Rightarrow> Inr (checkMe # kept)))"

lemma jsize_asArray: "x \<in> set (asArray v) \<Longrightarrow> jsize x \<le> jsize v"
  by (cases v) (auto dest: jsize_elem simp del: jsize.simps intro: less_imp_le)

lemma own_length_not_object: "own_length v = Some n \<Longrightarrow> \<not> typeof_object n"
  by (cases v) auto

lemma jsize_js_get: "typeof_object (js_get v k) \<Longrightarrow> jsize (js_get v k) < jsize v"
proof -
  assume t: "typeof_object (js_get v k)"
  show ?thesis
  proof (cases "map_of (own_props v) k")
    case None
    show ?thesis
    proof (cases "own_length v")
      case n: None
      with None t show ?thesis by (simp add: js_get_def split: if_splits)
    next
      case (Some n)
      with None t own_length_not_object[OF Some] show ?thesis
        by (simp add: js_get_def split: if_splits)
    qed
  next
    case (Some x)
    then have "(k, x) \<in> set (own_props v)" by (rule map_of_SomeD)
    moreover from Some have "js_get v k = x" by (simp add: js_get_def)
    ultimately show ?thesis using t jsize_own_props[of k x v] by simp
  qed
qed

text \<open>Running a loop body over a list while threading the queue; the first exception ends
  the loop.\<close>

fun foldE :: "('a \<Rightarrow> 'q \<Rightarrow> fault + 'q) \<Rightarrow> 'a list \<Rightarrow> 'q \<Rightarrow> fault + 'q" where
  "foldE f [] q = Inr q"
| "foldE f (x # xs) q = (case f x q of Inl e \<Rightarrow> Inl e | Inr q' \<Rightarrow> foldE f xs q')"

lemma foldE_cong [fundef_cong]:
  "xs = ys \<Longrightarrow> q = q' \<Longrightarrow> (\<And>x r. x \<in> set ys \<Longrightarrow> f x r = g x r) \<Longrightarrow> foldE f xs q = foldE g ys q'"
proof -
  assume "xs = ys" "q = q'" and fg: "\<And>x r. x \<in> set ys \<Longrightarrow> f x r = g x r"
  have "foldE f ys q' = foldE g ys q'" using fg
    by (induction ys arbitrary: q') (auto split: sum.splits)
  with \<open>xs = ys\<close> \<open>q = q'\<close> show ?thesis by simp
qed

text \<open>The tail of \<^verbatim>\<open>parseContentForLinking\<close>: the queue of the store becomes the items
  queued before the call followed by the parsed content, without repeated primary keys.
  (\<^verbatim>\<open>options.primaryKey\<close> is only evaluated inside the filter callback, so missing options
  raise a TypeError only when there is an item to filter.)\<close>

definition concatenateQueue ::
  "OptionsMap \<Rightarrow> string \<Rightarrow> json list \<Rightarrow> json list \<Rightarrow> QueueMap \<Rightarrow> fault + QueueMap" where
  "concatenateQueue om name current parsed q =
     (case (if current @ parsed = [] then Inr []
            else (case map_of om name of
                    None \<Rightarrow> Inl TypeError
                  | Some options \<Rightarrow> dedupe (primaryKey options) [] (current @ parsed))) of
        Inl e \<Rightarrow> Inl e
      | Inr concatenated \<Rightarrow> Inr (AList.update name concatenated q))"

text \<open>\<^verbatim>\<open>parseContent\<close> inside \<^verbatim>\<open>extractLinkedContent\<close>: a nested value is queued for the
  linked store when it owns the primary-key property of that store and the value of it is
  a string.\<close>

definition linkable :: "OptionsMap \<Rightarrow> string \<Rightarrow> json \<Rightarrow> fault + string option" where
  "linkable om linkStore item =
     (if nullish item then Inl TypeError
      else (case map_of om linkStore of
              None \<Rightarrow> Inl TypeError
            | Some options \<Rightarrow>
                if \<not> has_own item (primaryKey options)
                   \<or> \<not> typeof_string (js_get item (primaryKey options))
                then Inr None
                else Inr (Some (storeName options))))"

text \<open>\<^verbatim>\<open>parseContentForLinking\<close> and \<^verbatim>\<open>extractLinkedContent\<close>. The map of queues is a mutable
  \<^verbatim>\<open>Map\<close> in the source and is threaded through here; \<^verbatim>\<open>current\<close> is read before the
  nested content is extracted, as in the source. \<^verbatim>\<open>extractLinkedContent\<close> returns its
  content unchanged, so the parsed content is the content itself.\<close>

function parseContentForLinking ::
    "OptionsMap \<Rightarrow> LinkMap \<Rightarrow> string \<Rightarrow> json \<Rightarrow> QueueMap \<Rightarrow> fault + QueueMap"
  and extractLinkedContent ::
    "OptionsMap \<Rightarrow> LinkMap \<Rightarrow> json \<Rightarrow> StringMap \<Rightarrow> QueueMap \<Rightarrow> fault + QueueMap" where
  "parseContentForLinking om lm name content linkedItems =
     (case (case map_of lm name of
              None \<Rightarrow> Inr linkedItems
            | Some linkedToMap \<Rightarrow>
                foldE (\<lambda>cloneMe q. extractLinkedContent om lm cloneMe linkedToMap q)
                  (asArray content) linkedItems) of
        Inl e \<Rightarrow> Inl e
      | Inr q \<Rightarrow>
          concatenateQueue om name
            (case map_of linkedItems name of Some queued \<Rightarrow> queued | None \<Rightarrow> [])
            (asArray content) q)"
| "extractLinkedContent om lm content linkedToMap linkedItems =
     foldE (\<lambda>link q.
              if nullish content then Inl TypeError
              else if \<not> has_own content (fst link) \<or> \<not> typeof_object (js_get content (fst link))
              then Inr q
              else
                foldE (\<lambda>item q'.
                         case linkable om (snd link) item of
                           Inl e \<Rightarrow> Inl e
                         | Inr None \<Rightarrow> Inr q'
                         | Inr (Some linkedStore) \<Rightarrow>
                             parseContentForLinking om lm linkedStore item q')
                  (asArray (js_get content (fst link))) q)
       linkedToMap linkedItems"
  by pat_completeness (simp_all only: sum.inject prod.inject sum.distinct)
termination
proof (relation "measure (\<lambda>x. case x of Inl (om, lm, name, content, q) \<Rightarrow> 2 * jsize content + 1
                                        | Inr (om, lm, content, links, q) \<Rightarrow> 2 * jsize content)",
       goal_cases)
  case 1
  show ?case by simp
next
  case (2 om lm name content linkedItems x2 x r)
  then have "jsize x \<le> jsize content" by (simp add: jsize_asArray)
  then show ?case by simp
next
  case (3 om lm content linkedToMap linkedItems x r xa ra b x2)
  then have "jsize xa \<le> jsize (js_get content (fst x))" by (simp add: jsize_asArray)
  moreover from 3 have "jsize (js_get content (fst x)) < jsize content"
    by (simp add: jsize_js_get)
  ultimately show ?case by simp
qed

text \<open>The queue of a store in a queue map, and whether some item queued for a store carries
  a given value of the store's primary-key property.\<close>

definition queueOf :: "QueueMap \<Rightarrow> string \<Rightarrow> json list" where
  "queueOf q name = (case map_of q name of Some items \<Rightarrow> items | None \<Rightarrow> [])"

definition queuedFor :: "OptionsMap \<Rightarrow> QueueMap \<Rightarrow> string \<Rightarrow> json \<Rightarrow> bool" where
  "queuedFor om q name key =
     (case map_of om name of
        None \<Rightarrow> False
      | Some options \<Rightarrow> list_ex (\<lambda>item. js_get item (primaryKey options) = key) (queueOf q name))"

text \<open>Every entry of the options map is registered under its own store name, as
  \<^verbatim>\<open>updatePersistenceSettings\<close> and \<^verbatim>\<open>flattenPersistenceLinkOptions\<close> register them.\<close>

definition keyedByName :: "OptionsMap \<Rightarrow> bool" where
  "keyedByName om = list_all (\<lambda>entry. storeName (snd entry) = fst entry) om"

text \<open>Nested references. \<open>refersTo om lm name x linkedStore v\<close>: the entity \<open>x\<close> of the store
  \<open>name\<close> holds \<open>v\<close> under a linked property (as its value, or as an element of the array it
  holds), and \<open>v\<close> is an entity of the linked store for \<^verbatim>\<open>extractLinkedContent\<close>: not an
  array, and with a string under the primary-key property of that store. \<open>refersAlong\<close>
  follows such references from an entity through the given entities, each with its
  store.\<close>

definition refersTo :: "OptionsMap \<Rightarrow> LinkMap \<Rightarrow> string \<Rightarrow> json \<Rightarrow> string \<Rightarrow> json \<Rightarrow> bool" where
  "refersTo om lm name x linkedStore v =
     (case map_of lm name of
        None \<Rightarrow> False
      | Some links \<Rightarrow>
          list_ex (\<lambda>link. has_own x (fst link) \<and> typeof_object (js_get x (fst link))
                          \<and> v \<in> set (asArray (js_get x (fst link)))
                          \<and> \<not> is_array v
                          \<and> linkable om (snd link) v = Inr (Some linkedStore))
            links)"

fun refersAlong :: "OptionsMap \<Rightarrow> LinkMap \<Rightarrow> string \<Rightarrow> json \<Rightarrow> (string \<times> json) list \<Rightarrow> bool" where
  "refersAlong om lm name x [] = True"
| "refersAlong om lm name x (next # rest) =
     (refersTo om lm name x (fst next) (snd next) \<and> refersAlong om lm (fst next) (snd next) rest)"

section \<open>Index keys (database service, \<^verbatim>\<open>createKeyMap\<close>)\<close>

text \<open>\<^verbatim>\<open>updateStorageSettings\<close> computes, for every queued store, the key paths to index from
  the first 20 queued items. \<^verbatim>\<open>createKeyMapForItem\<close> walks the own properties of an item:
  a key that does not start with a letter, underscore or dollar sign, contains a dash or is
  already in the key map is skipped, as is an array or boolean value; an object value is
  walked recursively (a \<^verbatim>\<open>null\<close> value has \<^verbatim>\<open>typeof\<close> \<^verbatim>\<open>'object'\<close> too, and
  \<^verbatim>\<open>Object.keys(null)\<close> raises a TypeError).\<close>

type_synonym KeyMap = "(string \<times> bool) list"
type_synonym StorageMap = "(string \<times> KeyMap) list"

definition starts_identifier :: "string \<Rightarrow> bool" where
  "starts_identifier key =
     (case key of
        [] \<Rightarrow> False
      | c # cs \<Rightarrow> c \<in> set ''abcdefghijklmnopqrstuvwxyzABCDEFGHIJKLMNOPQRSTUVWXYZ_$'')"

fun typeof_boolean :: "json \<Rightarrow> bool" where
  "typeof_boolean (JBool b) = True"
| "typeof_boolean v = False"

definition basePath :: "string option \<Rightarrow> string" where
  "basePath path = (case path of None \<Rightarrow> [] | Some p \<Rightarrow> if p = [] then [] else p @ ''.'')"

definition addLinkedKeyPaths :: "string \<Rightarrow> KeyMap \<Rightarrow> KeyMap" where
  "addLinkedKeyPaths keyPath keyMap =
     (if map_of keyMap (keyPath @ ''.'' @ idKey) \<noteq> None then keyMap
      else AList.update (keyPath @ ''.'' @ idKey) False keyMap)"

definition keyOptionsOf ::
  "OptionsMap \<Rightarrow> LinkMap \<Rightarrow> TtPersistenceOptions option \<Rightarrow> string
     \<Rightarrow> TtPersistenceOptions option" where
  "keyOptionsOf om lm options key =
     (case options of
        None \<Rightarrow> None
      | Some opts \<Rightarrow>
          (case map_of lm (storeName opts) of
             None \<Rightarrow> None
           | Some links \<Rightarrow>
               (case map_of links key of None \<Rightarrow> None | Some optionsKey \<Rightarrow> map_of om optionsKey)))"

definition uniquesOf :: "TtPersistenceOptions option \<Rightarrow> string list" where
  "uniquesOf options = (case options of None \<Rightarrow> [] | Some opts \<Rightarrow> uniqueKeys opts)"

function createKeyMapForItem ::
  "OptionsMap \<Rightarrow> LinkMap \<Rightarrow> json \<Rightarrow> KeyMap \<Rightarrow> TtPersistenceOptions option \<Rightarrow> string option
     \<Rightarrow> fault + KeyMap" where
  "createKeyMapForItem om lm item keyMap options path =
     (if nullish item then Inl TypeError
      else
        foldE (\<lambda>field km.
                 if \<not> starts_identifier (fst field)
                    \<or> map_of km (basePath path @ fst field) \<noteq> None
                    \<or> CHR ''-'' \<in> set (fst field)
                 then Inr km
                 else if is_array (snd field) \<or> typeof_boolean (snd field) then Inr km
                 else if typeof_object (snd field) then
                   (case createKeyMapForItem om lm (snd field) km
                           (keyOptionsOf om lm options (fst field))
                           (Some (basePath path @ fst field)) of
                      Inl e \<Rightarrow> Inl e
                    | Inr km' \<Rightarrow>
                        if keyOptionsOf om lm options (fst field) \<noteq> None
                        then Inr (addLinkedKeyPaths (basePath path @ fst field) km')
                        else Inr (AList.update (basePath path @ fst field)
                                    (fst field \<in> set (uniquesOf options)) km'))
                 else Inr (AList.update (basePath path @ fst field)
                             (fst field \<in> set (uniquesOf options)) km))
          (own_props item) keyMap)"
  by pat_completeness (simp_all only: prod.inject)
termination
proof (relation "measure (\<lambda>(om, lm, item, keyMap, options, path). jsize item)", goal_cases)
  case 1
  show ?case by simp
next
  case (2 om lm item keyMap options path x r)
  then show ?case
    using jsize_own_props[of "fst x" "snd x" item] by simp
qed

text \<open>\<^verbatim>\<open>createKeyMap\<close>: the first 20 items, then the identity key.\<close>

definition createKeyMap ::
  "OptionsMap \<Rightarrow> LinkMap \<Rightarrow> json list \<Rightarrow> TtPersistenceOptions option \<Rightarrow> fault + KeyMap" where
  "createKeyMap om lm content options =
     (case foldE (\<lambda>item combinedMap. createKeyMapForItem om lm item combinedMap options None)
             (take 20 content) [] of
        Inl e \<Rightarrow> Inl e
      | Inr keyMap \<Rightarrow> Inr (AList.update idKey True keyMap))"

text \<open>\<^verbatim>\<open>updateStorageSettings\<close> registers every queued store with its key map (the stored
  entries followed by the new ones). The \<^verbatim>\<open>StorageMap\<close> is mutated in place, so the stores
  handled before an exception stay registered.\<close>

fun registerStores ::
  "OptionsMap \<Rightarrow> LinkMap \<Rightarrow> QueueMap \<Rightarrow> StorageMap \<Rightarrow> fault option \<times> StorageMap" where
  "registerStores om lm [] sm = (None, sm)"
| "registerStores om lm ((name, content) # rest) sm =
     (case createKeyMap om lm content (map_of om name) of
        Inl e \<Rightarrow> (Some e, sm)
      | Inr keyMap \<Rightarrow>
          registerStores om lm rest
            (AList.update name
               (fold (\<lambda>entry combinedMap. AList.update (fst entry) (snd entry) combinedMap) keyMap
                  (case map_of sm name of Some storedMap \<Rightarrow> storedMap | None \<Rightarrow> []))
               sm))"

definition updateStorageSettings ::
  "QueueMap \<Rightarrow> DatabaseService \<Rightarrow> fault option \<times> DatabaseService" where
  "updateStorageSettings linkedItems st =
     (case registerStores (optionsMap st) (linkMap st) linkedItems (storageMap st) of
        (failure, sm) \<Rightarrow> (failure, st\<lparr>storageMap := sm\<rparr>))"

text \<open>\<^verbatim>\<open>handleObjectStoreUpdates\<close> is the upgrade step of \<^verbatim>\<open>initializeDatabase\<close>: every
  registered store that does not exist is created, and one that exists and is marked for an
  update is deleted and created again, empty. Every call of \<^verbatim>\<open>persist\<close> bumps the version
  before it opens the database, so the upgrade handler always runs there. The pending
  removals and index clean-ups (produced only by dropping a store) and the trigger indices
  are not modelled.\<close>

definition handleObjectStoreUpdates :: "DatabaseService \<Rightarrow> DatabaseService" where
  "handleObjectStoreUpdates st =
     (if mutationsUpdate st = [] then st
      else st\<lparr>database :=
                fold (\<lambda>name db.
                        if map_of db name \<noteq> None \<and> name \<notin> set (mutationsUpdate st) then db
                        else AList.update name [] (AList.delete name db))
                  (map fst (storageMap st)) (database st),
              mutationsUpdate := []\<rparr>)"

text \<open>\<^verbatim>\<open>createIndices\<close> creates an index for every key of the key map of a store it has
  created, except the identity key, a key that does not start with a letter, underscore or
  dollar sign, and a key with a dash. The engine accepts as the key path of an index only
  identifiers separated by periods, an identifier being a letter, underscore or dollar sign
  followed by letters, digits, underscores and dollar signs (letters beyond the Latin-1
  range are outside this model of strings). For any other key path \<^verbatim>\<open>createIndex\<close> raises
  a \<^verbatim>\<open>SyntaxError\<close> inside the upgrade handler: the upgrade transaction is aborted, nothing
  of the upgrade is kept, and the open request fails with an \<^verbatim>\<open>AbortError\<close>.\<close>

definition identifier_start :: "char \<Rightarrow> bool" where
  "identifier_start c =
     (c \<in> set ''abcdefghijklmnopqrstuvwxyzABCDEFGHIJKLMNOPQRSTUVWXYZ_$''
      \<or> of_char c \<in> {170 :: nat, 181, 186} \<or> (192 \<le> (of_char c :: nat) \<and> of_char c \<noteq> (215 :: nat)
          \<and> of_char c \<noteq> (247 :: nat)))"

definition identifier_part :: "char \<Rightarrow> bool" where
  "identifier_part c = (identifier_start c \<or> c \<in> set ''0123456789'' \<or> of_char c = (183 :: nat))"

definition valid_key_path :: "string \<Rightarrow> bool" where
  "valid_key_path key =
     (key = []
      \<or> list_all (\<lambda>identifier. identifier \<noteq> [] \<and> identifier_start (hd identifier)
                              \<and> list_all identifier_part (tl identifier))
           (split_on CHR ''.'' key))"

definition createIndices :: "KeyMap \<Rightarrow> string list" where
  "createIndices keyMap =
     filter (\<lambda>key. key \<noteq> idKey \<and> starts_identifier key \<and> CHR ''-'' \<notin> set key) (map fst keyMap)"

definition upgradeAborts :: "DatabaseService \<Rightarrow> bool" where
  "upgradeAborts st =
     (mutationsUpdate st \<noteq> []
      \<and> list_ex (\<lambda>store. \<not> (map_of (database st) (fst store) \<noteq> None
                                \<and> fst store \<notin> set (mutationsUpdate st))
                          \<and> list_ex (\<lambda>key. \<not> valid_key_path key) (createIndices (snd store)))
           (storageMap st))"

text \<open>\<^verbatim>\<open>initializeDatabase\<close>. Without registered stores it emits \<^verbatim>\<open>undefined\<close>, which the
  caller cannot destructure (a TypeError). \<^verbatim>\<open>openDatabaseRequest\<close> reads the value of
  \<^verbatim>\<open>indexedDb$\<close>, which raises the stored error once the subject is errored. When the open
  request fails, \<^verbatim>\<open>indexedDb$\<close> is errored and the observable fails with an
  \<^verbatim>\<open>IndexedDBAccessError\<close>; when it succeeds, \<^verbatim>\<open>indexedDb$\<close> holds the database. Failures
  of the open request other than the aborted upgrade are not modelled.\<close>

definition initializeDatabase :: "DatabaseService \<Rightarrow> fault option \<times> DatabaseService" where
  "initializeDatabase st =
     (if storageMap st = [] then (Some TypeError, st)
      else if indexedDb st = Errored then (Some (DOMException ''AbortError''), st)
      else if upgradeAborts st
      then (Some (IndexedDBAccessError ''AbortError''), st\<lparr>indexedDb := Errored\<rparr>)
      else (None, (handleObjectStoreUpdates st)\<lparr>indexedDb := Opened\<rparr>))"

text \<open>\<^verbatim>\<open>Array.prototype.map\<close> with a callback that may raise.\<close>

fun mapE :: "('a \<Rightarrow> fault + 'b) \<Rightarrow> 'a list \<Rightarrow> fault + 'b list" where
  "mapE f [] = Inr []"
| "mapE f (x # xs) =
     (case f x of
        Inl e \<Rightarrow> Inl e
      | Inr y \<Rightarrow> (case mapE f xs of Inl e \<Rightarrow> Inl e | Inr ys \<Rightarrow> Inr (y # ys)))"

text \<open>\<^verbatim>\<open>addIdKeyToContent\<close>: \<^verbatim>\<open>{ ...item, [idKey]: extractUuid(item[primaryKey]) }\<close>.\<close>

definition addIdKeyToContent :: "json list \<Rightarrow> string \<Rightarrow> fault + json list" where
  "addIdKeyToContent content pk =
     mapE (\<lambda>item. if nullish item then Inl TypeError
                  else Inr (JObj (AList.update idKey (extractUuid (js_get item pk)) (own_props item))))
       content"

text \<open>\<^verbatim>\<open>typeof v === 'object' && v !== null\<close>.\<close>

fun is_object :: "json \<Rightarrow> bool" where
  "is_object (JArr xs) = True"
| "is_object (JObj kvs) = True"
| "is_object v = False"

text \<open>The callback that \<^verbatim>\<open>addRelationsToContent\<close> maps over the content. The source copies
  the item and loops over the linked properties, replacing the value of each by its tagged
  copy. The keys of the \<^verbatim>\<open>Map\<close> are distinct and a property is read before it is assigned,
  so the loop transforms exactly the own properties of the copy that are keys of
  \<^verbatim>\<open>linksToMap\<close>, each from its original value; this is how it is written here. A tagged copy
  is \<^verbatim>\<open>{ ...addRelationsToContent({ ...dupeMe }, moreLinks), __store__, __pkey__ }\<close>.\<close>

function addRelationsToItem :: "OptionsMap \<Rightarrow> LinkMap \<Rightarrow> StringMap \<Rightarrow> json \<Rightarrow> json" where
  "addRelationsToItem om lm linksToMap cloneMe =
     JObj (map (\<lambda>field.
                  (fst field,
                   case map_of linksToMap (fst field) of
                     None \<Rightarrow> snd field
                   | Some linkStore \<Rightarrow>
                       (case map_of om linkStore of
                          None \<Rightarrow> snd field
                        | Some options \<Rightarrow>
                            if \<not> typeof_object (snd field) then snd field
                            else
                              (case map (\<lambda>dupeMe.
                                           JObj (AList.update idKey
                                                   (extractUuid (js_get dupeMe (primaryKey options)))
                                                   (AList.update storeKey (JStr (storeName options))
                                                      (case map_of lm (storeName options) of
                                                         None \<Rightarrow> own_props dupeMe
                                                       | Some moreLinks \<Rightarrow>
                                                           if moreLinks = [] then own_props dupeMe
                                                           else own_props
                                                                  (addRelationsToItem om lm moreLinks dupeMe)))))
                                      (filter is_object (asArray (snd field))) of
                                 linksAdded \<Rightarrow>
                                   if is_array (snd field) then JArr linksAdded
                                   else (case linksAdded of [] \<Rightarrow> JUndef | first # rest \<Rightarrow> first)))))
            (own_props cloneMe))"
  by pat_completeness auto
termination
proof (relation "measure (\<lambda>(om, lm, links, cloneMe). jsize cloneMe)", goal_cases)
  case 1
  show ?case by simp
next
  case (2 om lm linksToMap cloneMe x x2 x2a xa x2b)
  then have "jsize xa \<le> jsize (snd x)" by (simp add: jsize_asArray)
  moreover from 2 have "jsize (snd x) < jsize cloneMe"
    using jsize_own_props[of "fst x" "snd x" cloneMe] by simp
  ultimately show ?case by simp
next
  case (3 om lm linksToMap cloneMe x x2 x2a xa x2b)
  then have "jsize xa \<le> jsize (snd x)" by (simp add: jsize_asArray)
  moreover from 3 have "jsize (snd x) < jsize cloneMe"
    using jsize_own_props[of "fst x" "snd x" cloneMe] by simp
  ultimately show ?case by simp
qed

text \<open>\<^verbatim>\<open>addRelationsToContent\<close> on the array of queued items.\<close>

definition addRelationsToContent ::
  "OptionsMap \<Rightarrow> LinkMap \<Rightarrow> json list \<Rightarrow> StringMap option \<Rightarrow> json list" where
  "addRelationsToContent om lm content linksToMap =
     (case linksToMap of
        None \<Rightarrow> content
      | Some links \<Rightarrow> if links = [] then content else map (addRelationsToItem om lm links) content)"


section \<open>The storage engine\<close>

text \<open>The keys IndexedDB accepts, among JSON values: numbers, strings and arrays of keys.
  \<^verbatim>\<open>put\<close> raises a \<^verbatim>\<open>DataError\<close> at once for a row whose key path holds anything else.\<close>

fun valid_key :: "json \<Rightarrow> bool" where
  "valid_key (JNum n) = True"
| "valid_key (JStr s) = True"
| "valid_key (JArr xs) = list_all valid_key xs"
| "valid_key v = False"

text \<open>What the engine does with a write request is not decided by the repository (a unique
  index may reject a row, for instance). It is a parameter: given the store name, the rows
  written so far and the row, the engine either accepts the row or fails the request with a
  message.\<close>

type_synonym engine = "string \<Rightarrow> ObjectStore \<Rightarrow> json \<Rightarrow> string option"

text \<open>What the subscriber of an observable sees: a value, an error, or nothing at all (the
  observable never emits).\<close>

datatype 'a outcome = Emits 'a | Fails fault | Silent

text \<open>\<^verbatim>\<open>createQueueObservable\<close> runs in two phases. The subscribe function runs to completion
  first (\<open>issue_puts\<close> below): it issues one \<^verbatim>\<open>put\<close> request per item, records the item in
  \<^verbatim>\<open>updated\<close>, and at the last item it inspects \<^verbatim>\<open>errors\<close> and either signals an
  \<^verbatim>\<open>IndexedDBAddError\<close> or registers the success handler of the last request. Only afterwards
  do the requests complete, in order (\<open>settle\<close>): a failed request pushes its message to
  \<^verbatim>\<open>errors\<close> and removes the item from \<^verbatim>\<open>updated\<close> (its error event is cancelled, so the
  transaction is not aborted and the transaction's error handler is not reached); an
  accepted request writes the row.\<close>

datatype sync_state = Threw fault | Signalled fault | AwaitLast | LoopEnded

record queue_run =
  errors :: "string list"
  updated :: "(json \<times> json) list"
  requests :: "json list"

fun issue_puts :: "string \<Rightarrow> json list \<Rightarrow> queue_run \<Rightarrow> sync_state \<times> queue_run" where
  "issue_puts name [] run = (LoopEnded, run)"
| "issue_puts name (item # rest) run =
     (if \<not> valid_key (js_get item idKey) then (Threw (DOMException ''DataError''), run)
      else
        (let run' = run\<lparr>requests := requests run @ [item],
                           updated := AList.update (js_get item idKey) item (updated run)\<rparr>
         in if rest = [] then
              (if errors run' \<noteq> [] then (Signalled (IndexedDBAddError name (errors run')), run')
               else (AwaitLast, run'))
            else issue_puts name rest run'))"

fun settle :: "engine \<Rightarrow> string \<Rightarrow> json list \<Rightarrow> ObjectStore \<times> queue_run \<times> bool
                 \<Rightarrow> ObjectStore \<times> queue_run \<times> bool" where
  "settle eng name [] state = state"
| "settle eng name (item # rest) (rows, run, ok) =
     (case eng name rows item of
        Some message \<Rightarrow>
          settle eng name rest
            (rows,
             run\<lparr>errors := errors run @ [message],
                  updated := AList.delete (js_get item idKey) (updated run)\<rparr>,
             False)
      | None \<Rightarrow> settle eng name rest (AList.update (js_get item idKey) item rows, run, True))"

text \<open>The observable emits \<^verbatim>\<open>updated\<close> when the last request succeeds; it emits nothing when
  the content is empty or the last request fails; it fails with the exception of a
  \<^verbatim>\<open>put\<close> that raised.\<close>

definition createQueueObservable ::
  "engine \<Rightarrow> OptionsMap \<Rightarrow> LinkMap \<Rightarrow> string \<Rightarrow> json list \<Rightarrow> ObjectStore
     \<Rightarrow> (json \<times> json) list outcome \<times> ObjectStore" where
  "createQueueObservable eng om lm name content rows =
     (case issue_puts name (addRelationsToContent om lm content (map_of lm name))
             \<lparr>errors = [], updated = [], requests = []\<rparr> of
        (sync, run) \<Rightarrow>
          (case settle eng name (requests run) (rows, run, False) of
             (rows', run', last_ok) \<Rightarrow>
               (case sync of
                  Threw e \<Rightarrow> Fails e
                | Signalled e \<Rightarrow> Fails e
                | AwaitLast \<Rightarrow> if last_ok then Emits (updated run') else Silent
                | LoopEnded \<Rightarrow> Silent,
                rows')))"

text \<open>\<^verbatim>\<open>createBatchInsertObservable\<close>: the stores of the queue one after the other, each
  started when the previous one has emitted.\<close>

fun createBatchInsertObservable ::
  "engine \<Rightarrow> OptionsMap \<Rightarrow> LinkMap \<Rightarrow> QueueMap \<Rightarrow> (string \<times> (json \<times> json) list) list
     \<Rightarrow> Database \<Rightarrow> (string \<times> (json \<times> json) list) list outcome \<times> Database" where
  "createBatchInsertObservable eng om lm [] addedMap db = (Emits addedMap, db)"
| "createBatchInsertObservable eng om lm ((name, content) # entries) addedMap db =
     (case map_of om name of
        None \<Rightarrow> (Fails TypeError, db)
      | Some options \<Rightarrow>
          (case addIdKeyToContent content (primaryKey options) of
             Inl e \<Rightarrow> (Fails e, db)
           | Inr items \<Rightarrow>
               (case createQueueObservable eng om lm name items
                       (case map_of db name of Some rows \<Rightarrow> rows | None \<Rightarrow> []) of
                  (Emits queueMap, rows) \<Rightarrow>
                    createBatchInsertObservable eng om lm entries
                      (AList.update name queueMap addedMap) (AList.update name rows db)
                | (Fails e, rows) \<Rightarrow> (Fails e, AList.update name rows db)
                | (Silent, rows) \<Rightarrow> (Silent, AList.update name rows db))))"

text \<open>\<^verbatim>\<open>insertLinkedItemsInStores\<close>: opening the transaction raises for an empty list of
  stores and for a store that does not exist.\<close>

definition insertLinkedItemsInStores ::
  "engine \<Rightarrow> OptionsMap \<Rightarrow> LinkMap \<Rightarrow> Database \<Rightarrow> QueueMap
     \<Rightarrow> (string \<times> (json \<times> json) list) list outcome \<times> Database" where
  "insertLinkedItemsInStores eng om lm db queuedItems =
     (if queuedItems = [] then (Fails (DOMException ''InvalidAccessError''), db)
      else if list_ex (\<lambda>name. map_of db name = None) (map fst queuedItems)
      then (Fails (DOMException ''NotFoundError''), db)
      else createBatchInsertObservable eng om lm queuedItems [] db)"

text \<open>\<^verbatim>\<open>TtPersistenceResult\<close> (store name and row count; the index names are left out) and
  \<^verbatim>\<open>createPersistenceResultsMap\<close>, which counts rows as \<^verbatim>\<open>!!store ? queue.length : 0\<close>.\<close>

datatype TtPersistenceResult = PersistenceResult string nat

definition createPersistenceResultsMap :: "QueueMap \<Rightarrow> bool option \<Rightarrow> TtPersistenceResult list" where
  "createPersistenceResultsMap queueMap store =
     map (\<lambda>(name, queue). PersistenceResult name (if store = Some True then length queue else 0))
       queueMap"

text \<open>\<^verbatim>\<open>TtPersistenceService.persist\<close>.\<close>

definition persist ::
  "engine \<Rightarrow> json \<Rightarrow> TtPersistenceOptions \<Rightarrow> DatabaseService
     \<Rightarrow> TtPersistenceResult list outcome \<times> DatabaseService" where
  "persist eng content options st0 =
     (let st1 = updatePersistenceSettings options st0 in
      case parseContentForLinking (optionsMap st1) (linkMap st1) (storeName options)
             (JArr (asArray content)) [] of
        Inl e \<Rightarrow> (Fails e, st1)
      | Inr linkedItems \<Rightarrow>
          (case updateStorageSettings linkedItems st1 of
             (Some e, st1') \<Rightarrow> (Fails e, st1')
           | (None, st1') \<Rightarrow>
               (case initializeDatabase st1' of
                  (Some e, st2) \<Rightarrow> (Fails e, st2)
                | (None, st2) \<Rightarrow>
                    (let results = createPersistenceResultsMap linkedItems (storeContent options)
                     in if storeContent options \<noteq> Some False then
                          (case insertLinkedItemsInStores eng (optionsMap st2) (linkMap st2)
                                  (database st2) linkedItems of
                             (Emits added, db) \<Rightarrow> (Emits results, st2\<lparr>database := db\<rparr>)
                           | (Fails e, db) \<Rightarrow> (Fails e, st2\<lparr>database := db\<rparr>)
                           | (Silent, db) \<Rightarrow> (Silent, st2\<lparr>database := db\<rparr>))
                        else (Emits results, st2)))))"

section \<open>Reading by key (retrieve service)\<close>

text \<open>Every operation of the service but \<^verbatim>\<open>persist\<close> starts from
  \<^verbatim>\<open>database$.pipe(filter((database) => !!database))\<close>: while no database has been opened
  nothing is emitted, and once \<^verbatim>\<open>indexedDb$\<close> is errored the subscriber receives its error.
  (The subscription stays on \<^verbatim>\<open>database$\<close>; what a later database would trigger is not
  part of the outcome modelled here.)\<close>

definition whenOpened :: "DatabaseService \<Rightarrow> 'a outcome \<Rightarrow> 'a outcome" where
  "whenOpened st opened =
     (case indexedDb st of
        Unopened \<Rightarrow> Silent
      | Errored \<Rightarrow> Fails (DOMException ''AbortError'')
      | Opened \<Rightarrow> opened)"

text \<open>Reads are modelled for lookups by primary key (no \<^verbatim>\<open>index\<close> option).
  \<open>linkedResultOperators\<close> is the loop of \<^verbatim>\<open>createLinkedResultObservable\<close>
  that collects one fetch per tagged linked value: the linked store, the property, the
  tag \<^verbatim>\<open>__pkey__\<close> and whether the property holds an array.\<close>

definition linkedResultOperators ::
  "OptionsMap \<Rightarrow> StringMap \<Rightarrow> json \<Rightarrow> fault + (string \<times> string \<times> json \<times> bool) list" where
  "linkedResultOperators om links result =
     foldE (\<lambda>link operators.
              if \<not> has_own result (fst link) \<or> \<not> typeof_object (js_get result (fst link))
              then Inr operators
              else
                (case js_get result (fst link) of
                   JArr linkedObject \<Rightarrow>
                     if list_ex nullish linkedObject then Inl TypeError
                     else
                       (case filter (\<lambda>linked. typeof_string (js_get linked idKey)) linkedObject of
                          [] \<Rightarrow> Inr operators
                        | matched \<Rightarrow>
                            (case map_of om (snd link) of
                               None \<Rightarrow> Inl TypeError
                             | Some options \<Rightarrow>
                                 Inr (operators
                                      @ map (\<lambda>linked. (storeName options, fst link, js_get linked idKey, True))
                                          matched)))
                 | linkedObject \<Rightarrow>
                     if nullish linkedObject then Inl TypeError
                     else if \<not> truthy (js_get linkedObject idKey) then Inr operators
                     else
                       (case map_of om (snd link) of
                          None \<Rightarrow> Inl TypeError
                        | Some options \<Rightarrow>
                            Inr (operators
                                 @ [(storeName options, fst link, js_get linkedObject idKey, False)]))))
       links []"

text \<open>The assignment of \<^verbatim>\<open>createLinkedResultOperator\<close>: a fetched row replaces the property,
  or is appended to the array the property holds.\<close>

definition assignLinked :: "json \<Rightarrow> string \<Rightarrow> json \<Rightarrow> bool \<Rightarrow> json" where
  "assignLinked current property linked array =
     JObj (AList.update property
             (if array
              then JArr ((if nullish (js_get current property) then []
                          else asArray (js_get current property)) @ [linked])
              else linked)
             (own_props current))"

text \<open>\<^verbatim>\<open>createResultObservable\<close> with \<^verbatim>\<open>createLinkedResultObservable\<close>. Linked rows are
  fetched recursively for as long as the stored rows refer to each other, so the recursion
  carries fuel; \<open>None\<close> means the fuel ran out. A key that is not in the store makes
  \<^verbatim>\<open>Object.keys(request.result)\<close> raise inside the success handler, after which nothing is
  emitted.\<close>

fun createResultObservable ::
  "nat \<Rightarrow> OptionsMap \<Rightarrow> LinkMap \<Rightarrow> Database \<Rightarrow> string \<Rightarrow> json \<Rightarrow> json outcome option" where
  "createResultObservable 0 om lm db name gpsId = None"
| "createResultObservable (Suc n) om lm db name gpsId =
     (case map_of db name of
        None \<Rightarrow> Some (Fails (DOMException ''NotFoundError''))
      | Some rows \<Rightarrow>
          if \<not> valid_key gpsId then Some (Fails (DOMException ''DataError''))
          else
            (case map_of rows gpsId of
               None \<Rightarrow> Some Silent
             | Some row \<Rightarrow>
                 (let result = (if own_props row = [] then JUndef else row);
                      links = (case map_of lm name of Some m \<Rightarrow> m | None \<Rightarrow> [])
                  in if links = [] \<or> result = JUndef then Some (Emits result)
                     else
                       (case linkedResultOperators om links result of
                          Inl e \<Rightarrow> Some (Fails e)
                        | Inr operators \<Rightarrow>
                            fold (\<lambda>operator acc.
                                    case acc of
                                      Some (Emits current) \<Rightarrow>
                                        (case createResultObservable n om lm db (fst operator)
                                                (fst (snd (snd operator))) of
                                           None \<Rightarrow> None
                                         | Some (Emits linked) \<Rightarrow>
                                             Some (Emits (assignLinked current (fst (snd operator)) linked
                                                            (snd (snd (snd operator)))))
                                         | Some (Fails e) \<Rightarrow> Some (Fails e)
                                         | Some Silent \<Rightarrow> Some Silent)
                                    | other \<Rightarrow> other)
                              operators (Some (Emits result))))))"

text \<open>\<^verbatim>\<open>getContentById\<close>: one lookup per key, the results concatenated.\<close>

definition getContentById ::
  "nat \<Rightarrow> OptionsMap \<Rightarrow> LinkMap \<Rightarrow> Database \<Rightarrow> string \<Rightarrow> json list
     \<Rightarrow> json list outcome option" where
  "getContentById n om lm db name gpsIds =
     fold (\<lambda>key acc.
             case acc of
               Some (Emits previous) \<Rightarrow>
                 (case createResultObservable n om lm db name key of
                    None \<Rightarrow> None
                  | Some (Emits result) \<Rightarrow> Some (Emits (previous @ asArray result))
                  | Some (Fails e) \<Rightarrow> Some (Fails e)
                  | Some Silent \<Rightarrow> Some Silent)
             | other \<Rightarrow> other)
       (case gpsIds of [] \<Rightarrow> [JUndef] | first # rest \<Rightarrow> gpsIds)
       (Some (Emits []))"

text \<open>\<^verbatim>\<open>TtPersistenceService.get\<close> with \<^verbatim>\<open>primaryKeys\<close> (a string or an array of strings):
  the rows are stripped of their tags, and a single string key yields the single row.\<close>

definition getByKey :: "nat \<Rightarrow> DatabaseService \<Rightarrow> string \<Rightarrow> json \<Rightarrow> json outcome option" where
  "getByKey n st name primaryKeys =
     (if indexedDb st \<noteq> Opened then Some (whenOpened st Silent)
      else
        (case getContentById n (optionsMap st) (linkMap st) (database st) name
                (asArray primaryKeys) of
           None \<Rightarrow> None
         | Some (Emits retrieved) \<Rightarrow>
             (case removeGeneratedIdKeyFromContent (JArr retrieved) of
                cleaned \<Rightarrow>
                  Some (Emits (if typeof_string primaryKeys
                               then (case cleaned of
                                       JArr [] \<Rightarrow> JUndef
                                     | JArr (first # rest) \<Rightarrow> first
                                     | other \<Rightarrow> other)
                               else cleaned)))
         | Some (Fails e) \<Rightarrow> Some (Fails e)
         | Some Silent \<Rightarrow> Some Silent))"

section \<open>Deleting rows (delete service)\<close>

text \<open>\<^verbatim>\<open>ParentLink\<close> with the \<^verbatim>\<open>path\<close> of \<^verbatim>\<open>ParentDelete\<close>; \<open>linkStore\<close> is the field
  \<^verbatim>\<open>storeName\<close> of the source.\<close>

record ParentDelete =
  linkStore :: string
  childStoreName :: string
  property :: string
  linkIdKey :: "string option"
  parentStoreName :: "string option"
  path :: "string list option"

type_synonym ParentDeleteMap = "(string \<times> ParentDelete) list"

text \<open>\<^verbatim>\<open>updateParentLink\<close> and \<^verbatim>\<open>createParentLinkMap\<close> (store service). The latter follows the
  link map upwards and does not end on a cyclic link map, so it carries fuel.\<close>

definition updateParentLink :: "ParentDelete \<Rightarrow> ParentDeleteMap \<Rightarrow> ParentDelete" where
  "updateParentLink link parentMap =
     fold (\<lambda>entry l. if childStoreName (snd entry) = linkStore l
                      then l\<lparr>parentStoreName := Some (fst entry)\<rparr> else l)
       parentMap link"

fun createParentLinkMap ::
  "nat \<Rightarrow> OptionsMap \<Rightarrow> LinkMap \<Rightarrow> string \<Rightarrow> ParentDeleteMap \<Rightarrow> ParentDeleteMap option" where
  "createParentLinkMap 0 om lm name parentMap = None"
| "createParentLinkMap (Suc n) om lm name parentMap =
     fold (\<lambda>edge acc.
             case acc of
               None \<Rightarrow> None
             | Some pm \<Rightarrow>
                 if snd (snd edge) = name then
                   (let link = \<lparr>linkStore = fst edge, childStoreName = name,
                                 property = fst (snd edge),
                                 linkIdKey = map_option primaryKey (map_of om name),
                                 parentStoreName = None, path = None\<rparr>
                    in case createParentLinkMap n om lm (fst edge) (AList.update (fst edge) link pm) of
                         None \<Rightarrow> None
                       | Some pm' \<Rightarrow> Some (AList.update (fst edge) (updateParentLink link pm') pm'))
                 else Some pm)
       (concat (map (\<lambda>entry. map (\<lambda>l. (fst entry, fst l, snd l)) (snd entry)) lm))
       (Some parentMap)"

text \<open>\<^verbatim>\<open>createParentDeleteMap\<close>: a link gets a path only when the map holds the link of its
  own parent store.\<close>

definition createParentDeleteMap ::
  "nat \<Rightarrow> OptionsMap \<Rightarrow> LinkMap \<Rightarrow> string \<Rightarrow> ParentDeleteMap option" where
  "createParentDeleteMap n om lm name =
     (case createParentLinkMap n om lm name [] of
        None \<Rightarrow> None
      | Some parentMap \<Rightarrow>
          Some (fold (\<lambda>store pm.
                  case map_of pm store of
                    None \<Rightarrow> pm
                  | Some link \<Rightarrow>
                      (case parentStoreName link of
                         None \<Rightarrow> pm
                       | Some parentName \<Rightarrow>
                           (case map_of pm parentName of
                              None \<Rightarrow> pm
                            | Some p \<Rightarrow>
                                (let linkPath = (case path link of Some q \<Rightarrow> q | None \<Rightarrow> [property link]);
                                     pm1 = AList.update store (link\<lparr>path := Some linkPath\<rparr>) pm
                                 in case map_of pm1 parentName of
                                      None \<Rightarrow> pm1
                                    | Some parent \<Rightarrow>
                                        AList.update parentName
                                          (parent\<lparr>path := Some (property parent # linkPath)\<rparr>) pm1))))
                (map fst parentMap) parentMap))"

text \<open>\<^verbatim>\<open>handleCascade\<close>, on an object.\<close>

definition handleCascade :: "json \<Rightarrow> string \<Rightarrow> TtDeleteCascade \<Rightarrow> json" where
  "handleCascade item p type =
     (case item of
        JObj kvs \<Rightarrow>
          (case type of
             DELETE \<Rightarrow> JObj (AList.delete p kvs)
           | NULL \<Rightarrow> JObj (AList.update p JNull kvs)
           | UNDEFINED \<Rightarrow> JObj (AList.update p JUndef kvs)
           | KEEP \<Rightarrow> item)
      | other \<Rightarrow> item)"

text \<open>\<^verbatim>\<open>checkItemRemovalState\<close> on the nested value, and the in-place update of a
  property.\<close>

definition checkItemRemovalState :: "json \<Rightarrow> json list \<Rightarrow> bool" where
  "checkItemRemovalState nested primaryKeys =
     (truthy nested \<and> list_ex (same_value_zero (js_get nested idKey)) primaryKeys)"

definition assignProperty :: "json \<Rightarrow> string \<Rightarrow> json \<Rightarrow> json" where
  "assignProperty item p v =
     (case item of JObj kvs \<Rightarrow> JObj (AList.update p v kvs) | other \<Rightarrow> item)"

text \<open>\<^verbatim>\<open>traverseItemPathForId\<close>. The source mutates the row in place and returns whether it
  changed; here the changed row is returned with the flag.\<close>

fun traverseItemPathForId ::
  "json \<Rightarrow> string list \<Rightarrow> TtDeleteCascade \<Rightarrow> json list \<Rightarrow> fault + bool \<times> json" where
  "traverseItemPathForId item [] type primaryKeys = Inr (False, item)"
| "traverseItemPathForId item (p # ps) type primaryKeys =
     (if nullish item then Inl TypeError
      else if \<not> has_own item p then Inr (False, item)
      else if ps \<noteq> [] then
        (if typeof_object (js_get item p) then
           (case js_get item p of
              JArr elements \<Rightarrow>
                (case mapE (\<lambda>nested. traverseItemPathForId nested ps type primaryKeys) elements of
                   Inl e \<Rightarrow> Inl e
                 | Inr results \<Rightarrow>
                     Inr (list_ex fst results, assignProperty item p (JArr (map snd results))))
            | nested \<Rightarrow>
                (case traverseItemPathForId nested ps type primaryKeys of
                   Inl e \<Rightarrow> Inl e
                 | Inr (changed, nested') \<Rightarrow> Inr (changed, assignProperty item p nested')))
         else Inr (False, item))
      else
        (case js_get item p of
           JArr elements \<Rightarrow> Inr (False, item)
         | nested \<Rightarrow>
             if checkItemRemovalState nested primaryKeys
             then Inr (True, handleCascade item p type)
             else Inr (False, item)))"

text \<open>\<^verbatim>\<open>TtPersistenceDeleteResult\<close>: store name, affected primary keys, path and cascade
  type.\<close>

datatype TtPersistenceDeleteResult =
  DeleteResult string "json list" string TtDeleteCascade

text \<open>A cursor visits the rows of a store in the order of their keys: numbers before
  strings before arrays, numbers by value, strings by their characters, arrays element by
  element. (The rows of a store are kept here in the order in which they were first
  written.)\<close>

fun key_lt :: "json \<Rightarrow> json \<Rightarrow> bool" and keys_lt :: "json list \<Rightarrow> json list \<Rightarrow> bool" where
  "key_lt (JNum m) (JNum n) = (m < n)"
| "key_lt (JNum m) (JStr t) = True"
| "key_lt (JNum m) (JArr ys) = True"
| "key_lt (JStr s) (JStr t) = (s < t)"
| "key_lt (JStr s) (JArr ys) = True"
| "key_lt (JArr xs) (JArr ys) = keys_lt xs ys"
| "key_lt a b = False"
| "keys_lt [] [] = False"
| "keys_lt [] (y # ys) = True"
| "keys_lt (x # xs) [] = False"
| "keys_lt (x # xs) (y # ys) = (key_lt x y \<or> (x = y \<and> keys_lt xs ys))"

fun insertByKey :: "json \<times> json \<Rightarrow> ObjectStore \<Rightarrow> ObjectStore" where
  "insertByKey row [] = [row]"
| "insertByKey row (placed # rest) =
     (if key_lt (fst row) (fst placed) then row # placed # rest
      else placed # insertByKey row rest)"

definition openCursor :: "ObjectStore \<Rightarrow> ObjectStore" where
  "openCursor rows = foldl (\<lambda>visited row. insertByKey row visited) [] rows"

text \<open>\<^verbatim>\<open>createPruningObservable\<close> with \<^verbatim>\<open>handlePruneById\<close>: a cursor over the rows of the
  parent store. An exception inside the cursor's success handler stops the iteration, and
  nothing is emitted.\<close>

definition createPruningObservable ::
  "OptionsMap \<Rightarrow> Database \<Rightarrow> ParentDelete \<Rightarrow> json list
     \<Rightarrow> (TtPersistenceDeleteResult \<times> json list) outcome" where
  "createPruningObservable om db link primaryKeys =
     (case map_of om (linkStore link) of
        None \<Rightarrow> Fails TypeError
      | Some options \<Rightarrow>
          (case map_of db (linkStore link) of
             None \<Rightarrow> Fails (DOMException ''NotFoundError'')
           | Some rows \<Rightarrow>
               (case path link of
                  None \<Rightarrow> Fails TypeError
                | Some linkPath \<Rightarrow>
                    (case mapE (\<lambda>row. traverseItemPathForId (snd row) linkPath
                                         (case cascade options of Some t \<Rightarrow> t | None \<Rightarrow> KEEP)
                                         primaryKeys) (openCursor rows) of
                       Inl e \<Rightarrow> Silent
                     | Inr results \<Rightarrow>
                         Emits (DeleteResult (linkStore link)
                                  (map (\<lambda>r. js_get (snd r) idKey) (filter fst results))
                                  (intercalate ''.'' linkPath)
                                  (case cascade options of Some t \<Rightarrow> t | None \<Rightarrow> KEEP),
                                map snd (filter fst results))))))"

text \<open>\<^verbatim>\<open>createPruningOperators\<close>: one pruning per link of the map, in order.\<close>

fun createPruningOperators ::
  "OptionsMap \<Rightarrow> Database \<Rightarrow> ParentDelete list \<Rightarrow> json list
     \<Rightarrow> QueueMap \<times> TtPersistenceDeleteResult list
     \<Rightarrow> (QueueMap \<times> TtPersistenceDeleteResult list) outcome" where
  "createPruningOperators om db [] primaryKeys combined = Emits combined"
| "createPruningOperators om db (link # rest) primaryKeys (queueMap, results) =
     (case createPruningObservable om db link primaryKeys of
        Emits (deleteResult, content) \<Rightarrow>
          createPruningOperators om db rest primaryKeys
            (AList.update (linkStore link) content queueMap, results @ [deleteResult])
      | Fails e \<Rightarrow> Fails e
      | Silent \<Rightarrow> Silent)"

text \<open>\<^verbatim>\<open>checkAndPruneParents\<close>: the pruned rows are written back through
  \<^verbatim>\<open>insertLinkedItemsInStores\<close>.\<close>

definition checkAndPruneParents ::
  "nat \<Rightarrow> engine \<Rightarrow> DatabaseService \<Rightarrow> string \<Rightarrow> json list \<Rightarrow> TtPersistenceDeleteResult
     \<Rightarrow> (TtPersistenceDeleteResult list outcome \<times> DatabaseService) option" where
  "checkAndPruneParents n eng st name idKeys result =
     (case createParentDeleteMap n (optionsMap st) (linkMap st) name of
        None \<Rightarrow> None
      | Some deleteMap \<Rightarrow>
          Some (if deleteMap = [] then (Emits [result], st)
                else
                  (case createPruningOperators (optionsMap st) (database st) (map snd deleteMap)
                          idKeys ([], []) of
                     Emits (queueMap, deleteResults) \<Rightarrow>
                       (case insertLinkedItemsInStores eng (optionsMap st) (linkMap st)
                               (database st) queueMap of
                          (Emits added, db) \<Rightarrow> (Emits deleteResults, st\<lparr>database := db\<rparr>)
                        | (Fails e, db) \<Rightarrow> (Fails e, st\<lparr>database := db\<rparr>)
                        | (Silent, db) \<Rightarrow> (Silent, st\<lparr>database := db\<rparr>))
                   | Fails e \<Rightarrow> (Fails e, st)
                   | Silent \<Rightarrow> (Silent, st))))"

text \<open>\<^verbatim>\<open>deleteContentFromStore\<close>: the keys are deleted one request after the other; the
  result is emitted by the request of the key whose first position in the list is the last
  one.\<close>

definition deleteContentFromStore ::
  "nat \<Rightarrow> engine \<Rightarrow> DatabaseService \<Rightarrow> string \<Rightarrow> json list
     \<Rightarrow> (TtPersistenceDeleteResult list outcome \<times> DatabaseService) option" where
  "deleteContentFromStore n eng st name idKeys =
     (case map_of (database st) name of
        None \<Rightarrow> Some (Fails (DOMException ''NotFoundError''), st)
      | Some rows \<Rightarrow>
          (let issued = takeWhile valid_key idKeys;
               st' = st\<lparr>database :=
                         AList.update name (filter (\<lambda>row. fst row \<notin> set issued) rows) (database st)\<rparr>
           in if length issued < length idKeys then Some (Fails (DOMException ''DataError''), st')
              else if idKeys = [] \<or> last idKeys \<in> set (butlast idKeys) then Some (Silent, st')
              else checkAndPruneParents n eng st' name idKeys
                     (DeleteResult name idKeys [] DELETE)))"

text \<open>\<^verbatim>\<open>TtPersistenceService.delete\<close>.\<close>

definition deleteRows ::
  "nat \<Rightarrow> engine \<Rightarrow> DatabaseService \<Rightarrow> string \<Rightarrow> json
     \<Rightarrow> (TtPersistenceDeleteResult list outcome \<times> DatabaseService) option" where
  "deleteRows n eng st name primaryKeys =
     (if indexedDb st \<noteq> Opened then Some (whenOpened st Silent, st)
      else deleteContentFromStore n eng st name (map extractUuid (asArray primaryKeys)))"



section \<open>Adding and updating rows (\<^verbatim>\<open>TtPersistenceService.post\<close> and \<^verbatim>\<open>put\<close>)\<close>

text \<open>\<^verbatim>\<open>getPrimaryKeyValue\<close> and \<^verbatim>\<open>createItemWithIdKeyValue\<close>. The values produced by the
  external generator for an item are a parameter (\<open>generated\<close>, empty when \<^verbatim>\<open>post\<close> is
  called without a \<^verbatim>\<open>Generatable\<close>).\<close>

definition getPrimaryKeyValue :: "json \<Rightarrow> string \<Rightarrow> string \<Rightarrow> fault + json" where
  "getPrimaryKeyValue item name pk =
     (if \<not> truthy (extractUuid (js_get item pk)) then Inl (NoPrimaryKeyInObjectError name pk)
      else Inr (extractUuid (js_get item pk)))"

definition combineGenerated :: "json \<Rightarrow> (string \<times> json) list \<Rightarrow> json" where
  "combineGenerated item generated =
     JObj (fold (\<lambda>field kvs. AList.update (fst field) (snd field) kvs) generated (own_props item))"

definition createItemWithIdKeyValue ::
  "string \<Rightarrow> string \<Rightarrow> json \<Rightarrow> (string \<times> json) list \<Rightarrow> fault + json" where
  "createItemWithIdKeyValue name pk item generated =
     (case getPrimaryKeyValue (combineGenerated item generated) name pk of
        Inl e \<Rightarrow> Inl e
      | Inr idValue \<Rightarrow>
          Inr (JObj (fold (\<lambda>field kvs. AList.update (fst field) (snd field) kvs)
                       (own_props (combineGenerated item generated)) [(idKey, idValue)])))"

text \<open>The first steps of \<^verbatim>\<open>post\<close> on an open database: the options of the store are looked
  up (\<^verbatim>\<open>getPrimaryKeyForStore\<close>), and every item of the content is extended with its
  identity. Both run inside the operator chain of the returned observable, so a fault raised
  here is the error of \<^verbatim>\<open>post\<close>; only on success does \<^verbatim>\<open>post\<close> go on to queue and write
  the extended items.\<close>

definition postExtend ::
  "DatabaseService \<Rightarrow> string \<Rightarrow> json \<Rightarrow> (nat \<Rightarrow> (string \<times> json) list) \<Rightarrow> fault + json list" where
  "postExtend st name content generated =
     (case map_of (optionsMap st) name of
        None \<Rightarrow> Inl (NoPrimaryKeyInSettingsError name)
      | Some options \<Rightarrow>
          mapE (\<lambda>indexed. createItemWithIdKeyValue name (primaryKey options) (snd indexed)
                             (generated (fst indexed)))
            (zip [0..<length (asArray content)] (asArray content)))"

text \<open>\<^verbatim>\<open>getParentLinkForStore\<close> and \<^verbatim>\<open>updateContentInStore\<close> (store service). For a store
  that another store links to, \<^verbatim>\<open>updateParentsWithUpdatedLinks\<close> first fetches the parent
  rows through an index of the parent store and queues them. The indices of a store are
  not part of this model of the database, so the queue map that step produces is a
  parameter (\<open>parents\<close>: given the link and the queue map, the queue map it emits, an error,
  or nothing). A store without a parent link keeps its queue map. The keys returned are
  those of the rows written to the store itself.\<close>

type_synonym parents = "ParentDelete \<Rightarrow> QueueMap \<Rightarrow> QueueMap outcome"

definition getParentLinkForStore :: "ParentDeleteMap \<Rightarrow> string \<Rightarrow> ParentDelete option" where
  "getParentLinkForStore parentMap name =
     (case filter (\<lambda>link. childStoreName link = name) (map snd parentMap) of
        [] \<Rightarrow> None
      | link # rest \<Rightarrow> Some link)"

definition updateContentInStore ::
  "nat \<Rightarrow> parents \<Rightarrow> engine \<Rightarrow> DatabaseService \<Rightarrow> string \<Rightarrow> QueueMap
     \<Rightarrow> (json list outcome \<times> DatabaseService) option" where
  "updateContentInStore n updateParents eng st name queueMap =
     (case createParentLinkMap n (optionsMap st) (linkMap st) name [] of
        None \<Rightarrow> None
      | Some parentMap \<Rightarrow>
          Some (case (case getParentLinkForStore parentMap name of
                        None \<Rightarrow> Emits queueMap
                      | Some link \<Rightarrow> updateParents link queueMap) of
                  Fails e \<Rightarrow> (Fails e, st)
                | Silent \<Rightarrow> (Silent, st)
                | Emits appendedMap \<Rightarrow>
                    (case insertLinkedItemsInStores eng (optionsMap st) (linkMap st)
                            (database st) appendedMap of
                       (Emits addedMap, db) \<Rightarrow>
                         (case map_of addedMap name of
                            None \<Rightarrow> (Fails TypeError, st\<lparr>database := db\<rparr>)
                          | Some storeMap \<Rightarrow> (Emits (map fst storeMap), st\<lparr>database := db\<rparr>))
                     | (Fails e, db) \<Rightarrow> (Fails e, st\<lparr>database := db\<rparr>)
                     | (Silent, db) \<Rightarrow> (Silent, st\<lparr>database := db\<rparr>))))"

text \<open>The common end of \<^verbatim>\<open>post\<close> and \<^verbatim>\<open>put\<close>: the content is queued
  (\<^verbatim>\<open>createQueueMap\<close>), written, read back by the keys written, and stripped of its tags.\<close>

definition writeAndReadBack ::
  "nat \<Rightarrow> parents \<Rightarrow> engine \<Rightarrow> DatabaseService \<Rightarrow> string \<Rightarrow> TtPersistenceOptions
     \<Rightarrow> json list \<Rightarrow> (json outcome \<times> DatabaseService) option" where
  "writeAndReadBack n updateParents eng st name options contents =
     (case parseContentForLinking (optionsMap st) (linkMap st) (storeName options)
             (JArr contents) [] of
        Inl e \<Rightarrow> Some (Fails e, st)
      | Inr queueMap \<Rightarrow>
          (case updateContentInStore n updateParents eng st name queueMap of
             None \<Rightarrow> None
           | Some (Emits gpsIds, st') \<Rightarrow>
               (case getContentById n (optionsMap st') (linkMap st') (database st') name gpsIds of
                  None \<Rightarrow> None
                | Some (Emits retrieved) \<Rightarrow>
                    Some (Emits (removeGeneratedIdKeyFromContent (JArr retrieved)), st')
                | Some (Fails e) \<Rightarrow> Some (Fails e, st')
                | Some Silent \<Rightarrow> Some (Silent, st'))
           | Some (Fails e, st') \<Rightarrow> Some (Fails e, st')
           | Some (Silent, st') \<Rightarrow> Some (Silent, st')))"

text \<open>\<^verbatim>\<open>TtPersistenceService.post\<close>.\<close>

definition post ::
  "nat \<Rightarrow> parents \<Rightarrow> engine \<Rightarrow> (nat \<Rightarrow> (string \<times> json) list) \<Rightarrow> DatabaseService \<Rightarrow> string
     \<Rightarrow> json \<Rightarrow> (json outcome \<times> DatabaseService) option" where
  "post n updateParents eng generated st name content =
     (if indexedDb st \<noteq> Opened then Some (whenOpened st Silent, st)
      else
        (case postExtend st name content generated of
           Inl e \<Rightarrow> Some (Fails e, st)
         | Inr extended \<Rightarrow>
             (case map_of (optionsMap st) name of
                None \<Rightarrow> Some (Fails (NoPrimaryKeyInSettingsError name), st)
              | Some options \<Rightarrow> writeAndReadBack n updateParents eng st name options extended)))"

text \<open>\<^verbatim>\<open>TtPersistenceService.put\<close>: the content is queued as it is, without the identity
  check of \<^verbatim>\<open>post\<close>; a single row read back is returned by itself.\<close>

definition put ::
  "nat \<Rightarrow> parents \<Rightarrow> engine \<Rightarrow> DatabaseService \<Rightarrow> string \<Rightarrow> json
     \<Rightarrow> (json outcome \<times> DatabaseService) option" where
  "put n updateParents eng st name content =
     (if indexedDb st \<noteq> Opened then Some (whenOpened st Silent, st)
      else
        (case map_of (optionsMap st) name of
           None \<Rightarrow> Some (Fails (NoPrimaryKeyInSettingsError name), st)
         | Some options \<Rightarrow>
             (case writeAndReadBack n updateParents eng st name options (asArray content) of
                Some (Emits (JArr [single]), st') \<Rightarrow> Some (Emits single, st')
              | other \<Rightarrow> other)))"

section \<open>The scenario of the specification\<close>

text \<open>An engine that accepts every write, the two collections of the scenario, and the states
  reached by persisting the Location and then the Person.\<close>

definition accepts_all :: engine where
  "accepts_all = (\<lambda>name rows item. None)"

definition locationOptions :: TtPersistenceOptions where
  "locationOptions = Options ''Location'' ''@id'' [] [] None None"

definition personOptions :: TtPersistenceOptions where
  "personOptions = Options ''Person'' ''id'' [] [(''location'', locationOptions)] None None"

definition locationContent :: json where
  "locationContent = JObj [(''@id'', JStr ''/api/locations/1''), (''name'', JStr ''Test'')]"

definition personContent :: json where
  "personContent = JObj [(''id'', JStr ''p1''), (''location'', locationContent)]"

definition locationPersisted :: DatabaseService where
  "locationPersisted = snd (persist accepts_all locationContent locationOptions initialService)"

definition personPersisted :: DatabaseService where
  "personPersisted = snd (persist accepts_all personContent personOptions locationPersisted)"

text \<open>A second Person at the same Location.\<close>

definition secondPersonContent :: json where
  "secondPersonContent = JObj [(''id'', JStr ''p2''), (''location'', locationContent)]"

text \<open>Two Persons that refer to one Location, by its IRI and by its bare UUID, with options
  that store the content; and a Person whose friend is a Person.\<close>

definition locationByIri :: json where
  "locationByIri =
     JObj [(''@id'', JStr ''/api/locations/123e4567-e89b-12d3-a456-426614174000''),
           (''name'', JStr ''Test'')]"

definition locationByUuid :: json where
  "locationByUuid =
     JObj [(''@id'', JStr ''123e4567-e89b-12d3-a456-426614174000''), (''name'', JStr ''Test'')]"

definition visitors :: json where
  "visitors = JArr [JObj [(''id'', JStr ''p1''), (''location'', locationByIri)],
                    JObj [(''id'', JStr ''p2''), (''location'', locationByUuid)]]"

definition personStored :: TtPersistenceOptions where
  "personStored = Options ''Person'' ''id'' [] [(''location'', locationOptions)] (Some True) None"

definition friendOptions :: TtPersistenceOptions where
  "friendOptions =
     Options ''Person'' ''id'' [] [(''friend'', Options ''Person'' ''id'' [] [] None None)] None None"

definition friendContent :: json where
  "friendContent = JObj [(''id'', JStr ''p1''), (''friend'', JObj [(''id'', JStr ''p2'')])]"

text \<open>The rows of a store, and the plain collection used in the examples below.\<close>

definition rowsOf :: "DatabaseService \<Rightarrow> string \<Rightarrow> (json \<times> json) list" where
  "rowsOf st name = (case map_of (database st) name of Some rows \<Rightarrow> rows | None \<Rightarrow> [])"

definition thingOptions :: TtPersistenceOptions where
  "thingOptions = Options ''Thing'' ''id'' [] [] None None"

text \<open>A Thing and the state after persisting it; the state after a \<^verbatim>\<open>persist\<close> that failed on
  a \<^verbatim>\<open>null\<close> property before it opened the database, which leaves the store registered;
  and a store service that finds no parent rows to update.\<close>

definition thingContent :: json where
  "thingContent = JObj [(''id'', JStr ''a''), (''name'', JStr ''x'')]"

definition thingPersisted :: DatabaseService where
  "thingPersisted = snd (persist accepts_all thingContent thingOptions initialService)"

definition thingRegistered :: DatabaseService where
  "thingRegistered =
     snd (persist accepts_all (JObj [(''id'', JStr ''a''), (''name'', JNull)]) thingOptions
            initialService)"

definition noParents :: parents where
  "noParents = (\<lambda>link queueMap. Emits queueMap)"


text \<open>An engine with a unique index on one property: a row is rejected when another row of
  the store already holds the same value of that property. The users of the example collide
  on their e-mail address.\<close>

definition rejects_duplicate :: "string \<Rightarrow> engine" where
  "rejects_duplicate key =
     (\<lambda>name rows item.
        if list_ex (\<lambda>row. js_get (snd row) key = js_get item key \<and> fst row \<noteq> js_get item idKey) rows
        then Some ''ConstraintError'' else None)"

definition userOptions :: TtPersistenceOptions where
  "userOptions = Options ''User'' ''id'' [''email''] [] None None"

definition user :: "string \<Rightarrow> string \<Rightarrow> json" where
  "user ident email = JObj [(''id'', JStr ident), (''email'', JStr email)]"

text \<open>A Person that embeds a Location and a Team that embeds a Person, with a cascade policy
  on the embedding stores.\<close>

definition personCascade :: "TtDeleteCascade option \<Rightarrow> TtPersistenceOptions" where
  "personCascade policy =
     Options ''Person'' ''id'' [] [(''location'', locationOptions)] None policy"

definition personCascadePersisted :: "TtDeleteCascade option \<Rightarrow> DatabaseService" where
  "personCascadePersisted policy =
     snd (persist accepts_all personContent (personCascade policy) initialService)"

definition teamCascade :: "TtDeleteCascade option \<Rightarrow> TtPersistenceOptions" where
  "teamCascade policy =
     Options ''Team'' ''id'' [] [(''member'', personCascade policy)] None policy"

definition teamContent :: json where
  "teamContent = JObj [(''id'', JStr ''t1''), (''member'', personContent)]"

definition teamPersisted :: "TtDeleteCascade option \<Rightarrow> DatabaseService" where
  "teamPersisted policy = snd (persist accepts_all teamContent (teamCascade policy) initialService)"

section \<open>Clearing a store (\<^verbatim>\<open>TtPersistenceService.clear\<close>)\<close>

text \<open>The notifications a subscriber receives, in order. On an open database \<^verbatim>\<open>clear\<close>
  sends \<^verbatim>\<open>true\<close> when the database has no store of that name and then goes on (the branch does not return):
  \<^verbatim>\<open>database.transaction\<close> raises a \<^verbatim>\<open>NotFoundError\<close> for a missing store, and an exception
  raised while subscribing is delivered as the error of the observable. For an existing
  store the outcome of the \<^verbatim>\<open>clear\<close> request is the engine's (\<open>failure\<close> is the message of
  a failed request).\<close>

datatype 'a notification = Next 'a | Error fault

definition clear ::
  "string option \<Rightarrow> DatabaseService \<Rightarrow> string \<Rightarrow> bool notification list \<times> DatabaseService" where
  "clear failure st name =
     (case indexedDb st of
        Unopened \<Rightarrow> ([], st)
      | Errored \<Rightarrow> ([Error (DOMException ''AbortError'')], st)
      | Opened \<Rightarrow>
          (let first = (if map_of (database st) name = None then [Next True] else [])
           in case map_of (database st) name of
                None \<Rightarrow> (first @ [Error (DOMException ''NotFoundError'')], st)
              | Some rows \<Rightarrow>
                  (case failure of
                     Some message \<Rightarrow> (first @ [Error (IndexedDBStoreError message)], st)
                   | None \<Rightarrow>
                       (first @ [Next True],
                        st\<lparr>database := AList.update name [] (database st)\<rparr>))))"


section \<open>Tag stripping on a heap of mutable objects\<close>

text \<open>To see what \<^verbatim>\<open>removeGeneratedIdKeyFromContent\<close> mutates, the same code is modelled once
  more over an explicit heap. A value is a primitive or a reference to a cell; a cell is an
  object (its properties in order) or an array; the heap is the list of all cells, and
  allocating appends a cell. References may form cycles, so the recursion takes fuel.\<close>

datatype hval = VUndef | VNull | VBool bool | VNum int | VStr string | VRef nat

datatype cell = ObjCell "(string \<times> hval) list" | ArrCell "hval list"

type_synonym heap = "cell list"




definition h_set :: "heap \<Rightarrow> nat \<Rightarrow> string \<Rightarrow> hval \<Rightarrow> heap" where
  "h_set h r key v =
     (if r < length h
      then (case h ! r of
              ObjCell kvs \<Rightarrow> h[r := ObjCell (AList.update key v kvs)]
            | ArrCell xs \<Rightarrow> h)
      else h)"

definition h_delete :: "heap \<Rightarrow> nat \<Rightarrow> string \<Rightarrow> heap" where
  "h_delete h r key =
     (if r < length h
      then (case h ! r of
              ObjCell kvs \<Rightarrow> h[r := ObjCell (AList.delete key kvs)]
            | ArrCell xs \<Rightarrow> h)
      else h)"










section \<open>Properties\<close>

subsection \<open>Pagination\<close>

lemma paginate_small:
  "pagination opts \<noteq> Some False \<Longrightarrow> int (length content) \<le> pageSize opts \<Longrightarrow>
   paginateContent content (Some opts) = content"
  by (simp add: paginateContent_def Let_def)

lemma paginate_slice:
  assumes "pagination opts \<noteq> Some False" and "1 \<le> page opts" and "0 \<le> pageSize opts"
    and "pageSize opts < int (length content)"
  shows "paginateContent content (Some opts)
           = take (nat (pageSize opts)) (drop (nat ((page opts - 1) * pageSize opts)) content)"
proof -
  define s where "s = (page opts - 1) * pageSize opts"
  have s0: "0 \<le> s" using assms by (simp add: s_def)
  have "paginateContent content (Some opts) = js_slice content s (s + pageSize opts)"
    using assms s0 by (simp add: paginateContent_def Let_def s_def)
  also have "\<dots> = take (nat (pageSize opts)) (drop (nat s) content)"
  proof (cases "s \<le> int (length content)")
    case True
    show ?thesis
    proof (cases "s + pageSize opts \<le> int (length content)")
      case True
      with \<open>s \<le> int (length content)\<close> s0 assms show ?thesis
        by (simp add: js_slice_def Let_def min_def)
    next
      case False
      with \<open>s \<le> int (length content)\<close> s0 assms show ?thesis
        by (simp add: js_slice_def Let_def min_def)
    qed
  next
    case False
    with s0 assms show ?thesis
      by (simp add: js_slice_def Let_def min_def)
  qed
  finally show ?thesis by (simp add: s_def)
qed

lemma paginate_first:
  assumes "pagination opts \<noteq> Some False" and "page opts = 1" and "0 \<le> pageSize opts"
  shows "paginateContent content (Some opts) = take (min (length content) (nat (pageSize opts))) content"
proof (cases "int (length content) \<le> pageSize opts")
  case True
  then have "length content \<le> nat (pageSize opts)" by linarith
  with True show ?thesis using assms by (simp add: paginate_small min_def)
next
  case False
  then have "paginateContent content (Some opts) = take (nat (pageSize opts)) (drop (nat ((page opts - 1) * pageSize opts)) content)"
    using assms by (intro paginate_slice) auto
  moreover have "\<not> length content \<le> nat (pageSize opts)" using False assms(3) by linarith
  ultimately show ?thesis using assms by (simp add: min_def)
qed

lemma paginate_last:
  assumes "pagination opts \<noteq> Some False" and "1 \<le> page opts" and "0 < pageSize opts"
    and "page opts = (int (length content) + pageSize opts - 1) div pageSize opts"
  shows "paginateContent content (Some opts) = drop (nat ((page opts - 1) * pageSize opts)) content"
proof -
  define P where "P = pageSize opts"
  define N where "N = int (length content)"
  define q where "q = page opts"
  have P: "0 < P" using assms by (simp add: P_def)
  have q: "q = (N + P - 1) div P" using assms by (simp add: P_def N_def q_def)
  have q1: "1 \<le> q" using assms by (simp add: q_def)
  have "(N + P - 1) = P * q + (N + P - 1) mod P" using q by simp
  moreover have "0 \<le> (N + P - 1) mod P" "(N + P - 1) mod P < P" using P by simp_all
  ultimately have lo: "P * q \<le> N + P - 1" and hi: "N + P - 1 < P * q + P" by linarith+
  have s_lt: "(q - 1) * P < N" using lo by (simp add: algebra_simps)
  have s_hi: "N \<le> (q - 1) * P + P" using hi by (simp add: algebra_simps)
  have s0: "0 \<le> (q - 1) * P" using q1 P by simp
  show ?thesis
  proof (cases "N \<le> P")
    case True
    have "q = 1"
    proof (rule ccontr)
      assume "q \<noteq> 1"
      then have "2 \<le> q" using q1 by simp
      then have "P * 2 \<le> P * q" using P by (simp only: mult_le_cancel_left_pos)
      then show False using lo True by simp
    qed
    then show ?thesis using True assms by (simp add: paginate_small N_def P_def q_def)
  next
    case False
    then have "paginateContent content (Some opts)
                 = take (nat P) (drop (nat ((q - 1) * P)) content)"
      using assms unfolding P_def N_def q_def by (intro paginate_slice) auto
    moreover have "length (drop (nat ((q - 1) * P)) content) \<le> nat P"
      using s_hi s0 s_lt by (simp add: N_def)
    ultimately show ?thesis by (simp add: P_def q_def)
  qed
qed

text \<open>
  Claim C7. For a content list of length N and page options with a 1-indexed page number
  (\<open>page \<ge> 1\<close>), a page size \<open>P \<ge> 0\<close> and pagination not switched off: when
  \<open>N \<le> P\<close> the whole list is returned untouched, otherwise the slice
  \<open>[(page - 1) * P, (page - 1) * P + P)\<close> is returned. In particular page 1 yields the
  first \<open>min N P\<close> rows in their given order, and page \<open>\<lceil>N / P\<rceil>\<close> yields all the rows from
  offset \<open>(page - 1) * P\<close> on, that is the remainder.
\<close>

theorem paginateContent_page_slice:
  assumes "pagination opts \<noteq> Some False" and "1 \<le> page opts" and "0 \<le> pageSize opts"
  shows "(int (length content) \<le> pageSize opts \<longrightarrow>
            paginateContent content (Some opts) = content)
       \<and> (pageSize opts < int (length content) \<longrightarrow>
            paginateContent content (Some opts)
              = take (nat (pageSize opts)) (drop (nat ((page opts - 1) * pageSize opts)) content))
       \<and> (page opts = 1 \<longrightarrow>
            paginateContent content (Some opts)
              = take (min (length content) (nat (pageSize opts))) content)
       \<and> (0 < pageSize opts
            \<and> page opts = (int (length content) + pageSize opts - 1) div pageSize opts \<longrightarrow>
            paginateContent content (Some opts)
              = drop (nat ((page opts - 1) * pageSize opts)) content)"
proof (intro conjI impI)
  assume "int (length content) \<le> pageSize opts"
  then show "paginateContent content (Some opts) = content"
    using assms(1) by (rule paginate_small[rotated])
next
  assume "pageSize opts < int (length content)"
  then show "paginateContent content (Some opts)
      = take (nat (pageSize opts)) (drop (nat ((page opts - 1) * pageSize opts)) content)"
    using assms by (intro paginate_slice)
next
  assume "page opts = 1"
  then show "paginateContent content (Some opts)
      = take (min (length content) (nat (pageSize opts))) content"
    using assms by (intro paginate_first)
next
  assume "0 < pageSize opts
      \<and> page opts = (int (length content) + pageSize opts - 1) div pageSize opts"
  then show "paginateContent content (Some opts)
      = drop (nat ((page opts - 1) * pageSize opts)) content"
    using assms by (intro paginate_last) auto
qed

theorem paginateContent_page_slice_witness:
  "paginateContent [10, 20, 30, 40, 50 :: int] (Some \<lparr>page = 3, pageSize = 2, pagination = None\<rparr>)
     = [50]
   \<and> paginateContent [10, 20 :: int] (Some \<lparr>page = 1, pageSize = 2, pagination = Some True\<rparr>)
     = [10, 20]"
proof -
  have a: "paginateContent [10, 20, 30, 40, 50 :: int]
             (Some \<lparr>page = 3, pageSize = 2, pagination = None\<rparr>) = [50]"
    using paginateContent_page_slice
      [of "\<lparr>page = 3, pageSize = 2, pagination = None\<rparr>" "[10, 20, 30, 40, 50 :: int]"]
    by simp
  have b: "paginateContent [10, 20 :: int]
             (Some \<lparr>page = 1, pageSize = 2, pagination = Some True\<rparr>) = [10, 20]"
    using paginateContent_page_slice
      [of "\<lparr>page = 1, pageSize = 2, pagination = Some True\<rparr>" "[10, 20 :: int]"]
    by simp
  from a b show ?thesis by simp
qed

subsection \<open>Sorting\<close>

lemma number_lt_asym: "number_lt x y \<Longrightarrow> \<not> number_lt y x"
  by (cases x; cases y) (auto simp: min.commute)

lemma number_lt_NaN [simp]: "\<not> number_lt x NaN"
  by (cases x) auto

lemma js_lt_asym: "js_lt a b \<Longrightarrow> \<not> js_lt b a"
  by (auto simp: js_lt_def dest: number_lt_asym split: json.splits prod.splits)

lemma js_lt_JUndef [simp]: "\<not> js_lt JUndef b" "\<not> js_lt a JUndef"
  by (auto simp: js_lt_def toPrimitive_def split: json.splits)

lemma js_lt_num: "js_lt (JNum m) (JNum n) = (m < n)"
  by (simp add: js_lt_def toPrimitive_def)

lemma js_lt_str: "js_lt (JStr s) (JStr t) = (s < t)"
  by (simp add: js_lt_def toPrimitive_def)

lemma weakly_ordered_numbers: "list_all is_num vs \<Longrightarrow> weakly_ordered vs"
  unfolding weakly_ordered_def list_all_iff
proof (intro ballI impI)
  fix a b c
  assume all: "\<forall>v\<in>set vs. is_num v" and m: "a \<in> set vs" "b \<in> set vs" "c \<in> set vs"
    and lt: "js_lt a c"
  from all m obtain i j k where "a = JNum i" "b = JNum j" "c = JNum k"
    by (cases a; cases b; cases c) auto
  with lt show "js_lt a b \<or> js_lt b c" by (auto simp: js_lt_num)
qed

lemma weakly_ordered_strings: "list_all typeof_string vs \<Longrightarrow> weakly_ordered vs"
  unfolding weakly_ordered_def list_all_iff
proof (intro ballI impI)
  fix a b c
  assume all: "\<forall>v\<in>set vs. typeof_string v" and m: "a \<in> set vs" "b \<in> set vs" "c \<in> set vs"
    and lt: "js_lt a c"
  from all m obtain i j k where "a = JStr i" "b = JStr j" "c = JStr k"
    by (cases a; cases b; cases c) auto
  with lt show "js_lt a b \<or> js_lt b c" by (auto simp: js_lt_str)
qed

lemma compare_asc: "compare a b True < 0 \<longleftrightarrow> js_lt a b"
  by (simp add: compare_def)

lemma compare_desc: "compare a b False < 0 \<longleftrightarrow> \<not> js_lt a b"
  by (simp add: compare_def)

lemma set_insert_sorted: "set (insert_sorted cmp x ys) = insert x (set ys)"
  by (induction ys) auto

lemma mset_insert_sorted: "mset (insert_sorted cmp x ys) = add_mset x (mset ys)"
  by (induction ys) auto

lemma mset_foldl_insert_sorted:
  "mset (foldl (\<lambda>acc x. insert_sorted cmp x acc) acc xs) = mset acc + mset xs"
  by (induction xs arbitrary: acc) (auto simp: mset_insert_sorted)

lemma mset_insertionSort: "mset (insertionSort cmp xs) = mset xs"
  by (simp add: insertionSort_def mset_foldl_insert_sorted)

lemma set_foldl_insert_sorted:
  "set (foldl (\<lambda>acc x. insert_sorted cmp x acc) acc xs) = set acc \<union> set xs"
  using mset_foldl_insert_sorted[of cmp acc xs, THEN arg_cong, of set_mset] by simp

text \<open>Insertion keeps a list ordered by a transitive relation that the comparator
  follows.\<close>

lemma insert_sorted_follows:
  assumes tr: "\<And>a b c. a \<in> A \<Longrightarrow> b \<in> A \<Longrightarrow> c \<in> A \<Longrightarrow> le a b \<Longrightarrow> le b c \<Longrightarrow> le a c"
    and fo: "\<And>a b. a \<in> A \<Longrightarrow> b \<in> A \<Longrightarrow> (if cmp a b < 0 then le a b else le b a)"
    and x: "x \<in> A" and ys: "set ys \<subseteq> A" and s: "sorted_wrt le ys"
  shows "sorted_wrt le (insert_sorted cmp x ys)"
  using ys s
proof (induction ys)
  case Nil
  then show ?case by simp
next
  case (Cons y ys)
  from Cons.prems have y: "y \<in> A" and sub: "set ys \<subseteq> A" by auto
  show ?case
  proof (cases "cmp x y < 0")
    case True
    with fo[OF x y] have xy: "le x y" by simp
    have "le x z" if "z \<in> set ys" for z
    proof -
      from that Cons.prems have "le y z" "z \<in> A" by auto
      with tr[OF x y _ xy] show ?thesis by blast
    qed
    with True xy Cons.prems show ?thesis by simp
  next
    case False
    with fo[OF x y] have "le y x" by simp
    with False Cons.prems Cons.IH[OF sub] show ?thesis
      by (auto simp: set_insert_sorted)
  qed
qed

lemma foldl_insert_sorted_follows:
  assumes tr: "\<And>a b c. a \<in> A \<Longrightarrow> b \<in> A \<Longrightarrow> c \<in> A \<Longrightarrow> le a b \<Longrightarrow> le b c \<Longrightarrow> le a c"
    and fo: "\<And>a b. a \<in> A \<Longrightarrow> b \<in> A \<Longrightarrow> (if cmp a b < 0 then le a b else le b a)"
  shows "set acc \<subseteq> A \<Longrightarrow> set xs \<subseteq> A \<Longrightarrow> sorted_wrt le acc \<Longrightarrow>
         sorted_wrt le (foldl (\<lambda>acc x. insert_sorted cmp x acc) acc xs)"
proof (induction xs arbitrary: acc)
  case Nil
  then show ?case by simp
next
  case (Cons x xs)
  from Cons.prems have x: "x \<in> A" and xs: "set xs \<subseteq> A" by auto
  have 1: "sorted_wrt le (insert_sorted cmp x acc)"
    using tr fo x Cons.prems(1) Cons.prems(3) by (rule insert_sorted_follows)
  have 2: "set (insert_sorted cmp x acc) \<subseteq> A"
    using x Cons.prems(1) by (simp add: set_insert_sorted)
  from Cons.IH[OF 2 xs 1] show ?case by simp
qed

lemma sorts_insertionSort: "sorts insertionSort"
  unfolding sorts_def
proof (intro allI impI conjI)
  fix cmp :: "json \<Rightarrow> json \<Rightarrow> int" and xs
  show "mset (insertionSort cmp xs) = mset xs" by (rule mset_insertionSort)
next
  fix cmp :: "json \<Rightarrow> json \<Rightarrow> int" and xs le
  assume h: "(\<forall>a\<in>set xs. \<forall>b\<in>set xs. \<forall>c\<in>set xs. le a b \<and> le b c \<longrightarrow> le a c)
        \<and> (\<forall>a\<in>set xs. \<forall>b\<in>set xs. if cmp a b < 0 then le a b else le b a)"
  have tr: "\<And>a b c. a \<in> set xs \<Longrightarrow> b \<in> set xs \<Longrightarrow> c \<in> set xs \<Longrightarrow> le a b \<Longrightarrow> le b c \<Longrightarrow> le a c"
    using h by blast
  have fo: "\<And>a b. a \<in> set xs \<Longrightarrow> b \<in> set xs \<Longrightarrow> (if cmp a b < 0 then le a b else le b a)"
    using h by blast
  have "sorted_wrt le (foldl (\<lambda>acc x. insert_sorted cmp x acc) [] xs)"
  proof (rule foldl_insert_sorted_follows[where A = "set xs"])
    show "\<And>a b c. a \<in> set xs \<Longrightarrow> b \<in> set xs \<Longrightarrow> c \<in> set xs \<Longrightarrow> le a b \<Longrightarrow> le b c \<Longrightarrow> le a c"
      by (rule tr)
    show "\<And>a b. a \<in> set xs \<Longrightarrow> b \<in> set xs \<Longrightarrow> (if cmp a b < 0 then le a b else le b a)"
      by (rule fo)
  qed simp_all
  then show "sorted_wrt le (insertionSort cmp xs)" by (simp add: insertionSort_def)
qed

text \<open>Insertion puts a row behind the rows it is tied with.\<close>

lemma insert_sorted_ties:
  assumes ag: "\<And>a b. a \<in> A \<Longrightarrow> b \<in> A \<Longrightarrow> (cmp a b < 0) = lt a b"
    and nt: "\<And>a b c. a \<in> A \<Longrightarrow> b \<in> A \<Longrightarrow> c \<in> A \<Longrightarrow> lt a c \<Longrightarrow> lt a b \<or> lt b c"
    and x: "x \<in> A" and r: "r \<in> A" and ys: "set ys \<subseteq> A"
    and s: "sorted_wrt (\<lambda>a b. \<not> lt b a) ys"
  shows "filter (\<lambda>a. \<not> lt r a \<and> \<not> lt a r) (insert_sorted cmp x ys)
         = filter (\<lambda>a. \<not> lt r a \<and> \<not> lt a r) ys @ (if \<not> lt r x \<and> \<not> lt x r then [x] else [])"
  using ys s
proof (induction ys)
  case Nil
  then show ?case by simp
next
  case (Cons y ys)
  from Cons.prems have y: "y \<in> A" and sub: "set ys \<subseteq> A" by auto
  show ?case
  proof (cases "lt x y")
    case True
    have below: "lt x z" if "z \<in> set (y # ys)" for z
    proof (cases "z = y")
      case True
      with \<open>lt x y\<close> show ?thesis by simp
    next
      case False
      with that Cons.prems have z: "z \<in> A" and "\<not> lt z y" by auto
      with nt[OF x z y True] show ?thesis by blast
    qed
    have "\<not> (\<not> lt r z \<and> \<not> lt z r)" if "z \<in> set (y # ys)" and "\<not> lt r x \<and> \<not> lt x r" for z
    proof -
      from that(1) Cons.prems have z: "z \<in> A" by auto
      from nt[OF x r z below[OF that(1)]] that(2) show ?thesis by blast
    qed
    then have "\<not> lt r x \<and> \<not> lt x r \<Longrightarrow> filter (\<lambda>a. \<not> lt r a \<and> \<not> lt a r) (y # ys) = []"
      unfolding filter_empty_conv by blast
    moreover have "cmp x y < 0" using True ag[OF x y] by simp
    ultimately show ?thesis by auto
  next
    case False
    then have "\<not> cmp x y < 0" using ag[OF x y] by simp
    with Cons.IH[OF sub] Cons.prems show ?thesis by auto
  qed
qed

lemma foldl_insert_sorted_ties:
  assumes ag: "\<And>a b. a \<in> A \<Longrightarrow> b \<in> A \<Longrightarrow> (cmp a b < 0) = lt a b"
    and asym: "\<And>a b. a \<in> A \<Longrightarrow> b \<in> A \<Longrightarrow> lt a b \<Longrightarrow> \<not> lt b a"
    and nt: "\<And>a b c. a \<in> A \<Longrightarrow> b \<in> A \<Longrightarrow> c \<in> A \<Longrightarrow> lt a c \<Longrightarrow> lt a b \<or> lt b c"
    and r: "r \<in> A"
  shows "set acc \<subseteq> A \<Longrightarrow> set xs \<subseteq> A \<Longrightarrow> sorted_wrt (\<lambda>a b. \<not> lt b a) acc \<Longrightarrow>
         filter (\<lambda>a. \<not> lt r a \<and> \<not> lt a r) (foldl (\<lambda>acc x. insert_sorted cmp x acc) acc xs)
         = filter (\<lambda>a. \<not> lt r a \<and> \<not> lt a r) acc @ filter (\<lambda>a. \<not> lt r a \<and> \<not> lt a r) xs"
proof (induction xs arbitrary: acc)
  case Nil
  then show ?case by simp
next
  case (Cons x xs)
  from Cons.prems have x: "x \<in> A" and xs: "set xs \<subseteq> A" by auto
  have 1: "sorted_wrt (\<lambda>a b. \<not> lt b a) (insert_sorted cmp x acc)"
  proof (rule insert_sorted_follows[where A = A])
    show "\<And>a b c. a \<in> A \<Longrightarrow> b \<in> A \<Longrightarrow> c \<in> A \<Longrightarrow> \<not> lt b a \<Longrightarrow> \<not> lt c b \<Longrightarrow> \<not> lt c a"
      using nt by blast
    show "\<And>a b. a \<in> A \<Longrightarrow> b \<in> A \<Longrightarrow> (if cmp a b < 0 then \<not> lt b a else \<not> lt a b)"
      using ag asym by auto
  qed (use x Cons.prems in auto)
  have 2: "set (insert_sorted cmp x acc) \<subseteq> A"
    using x Cons.prems(1) by (simp add: set_insert_sorted)
  have 3: "filter (\<lambda>a. \<not> lt r a \<and> \<not> lt a r) (insert_sorted cmp x acc)
         = filter (\<lambda>a. \<not> lt r a \<and> \<not> lt a r) acc @ (if \<not> lt r x \<and> \<not> lt x r then [x] else [])"
    using ag nt x r Cons.prems(1) Cons.prems(3) by (rule insert_sorted_ties)
  from Cons.IH[OF 2 xs 1] 3 show ?case by simp
qed

lemma keeps_ties_insertionSort: "keeps_ties insertionSort"
  unfolding keeps_ties_def
proof (intro allI impI ballI)
  fix cmp :: "json \<Rightarrow> json \<Rightarrow> int" and xs lt r
  assume h: "(\<forall>a\<in>set xs. \<forall>b\<in>set xs. (cmp a b < 0) = lt a b)
        \<and> (\<forall>a\<in>set xs. \<forall>b\<in>set xs. lt a b \<longrightarrow> \<not> lt b a)
        \<and> (\<forall>a\<in>set xs. \<forall>b\<in>set xs. \<forall>c\<in>set xs. lt a c \<longrightarrow> lt a b \<or> lt b c)"
    and r: "r \<in> set xs"
  have "filter (\<lambda>a. \<not> lt r a \<and> \<not> lt a r) (foldl (\<lambda>acc x. insert_sorted cmp x acc) [] xs)
         = filter (\<lambda>a. \<not> lt r a \<and> \<not> lt a r) [] @ filter (\<lambda>a. \<not> lt r a \<and> \<not> lt a r) xs"
  proof (rule foldl_insert_sorted_ties[where A = "set xs"])
    show "\<And>a b. a \<in> set xs \<Longrightarrow> b \<in> set xs \<Longrightarrow> (cmp a b < 0) = lt a b" using h by blast
    show "\<And>a b. a \<in> set xs \<Longrightarrow> b \<in> set xs \<Longrightarrow> lt a b \<Longrightarrow> \<not> lt b a" using h by blast
    show "\<And>a b c. a \<in> set xs \<Longrightarrow> b \<in> set xs \<Longrightarrow> c \<in> set xs \<Longrightarrow> lt a c \<Longrightarrow> lt a b \<or> lt b c"
      using h by blast
  qed (use r in simp_all)
  then show "filter (\<lambda>a. \<not> lt r a \<and> \<not> lt a r) (insertionSort cmp xs)
             = filter (\<lambda>a. \<not> lt r a \<and> \<not> lt a r) xs"
    by (simp add: insertionSort_def)
qed


lemma split_on_nonempty: "split_on c s \<noteq> []"
  by (induction s) (auto split: list.splits)

lemma comparisonValue_JUndef [simp]: "comparisonValue ps JUndef = JUndef"
  by (cases ps) (simp_all add: comparisonValue_def nullish_def)

lemma comparisonValue_itself:
  "getComparisonValue r ps = Inr v \<Longrightarrow> ps \<noteq> [] \<Longrightarrow> \<not> has_own r (hd ps) \<Longrightarrow>
   comparisonValue ps r = r"
  by (cases ps) (auto simp: comparisonValue_def split: if_splits)

lemma mset_defined_undefined:
  "mset (filter (\<lambda>x. x \<noteq> JUndef) xs) + mset (filter (\<lambda>x. x = JUndef) xs) = mset xs"
  by (induction xs) auto

lemma short_cases: "length (xs :: 'a list) < 2 \<Longrightarrow> xs = [] \<or> (\<exists>x. xs = [x])"
  by (cases xs; cases "tl xs") auto

text \<open>Rows followed by \<^verbatim>\<open>undefined\<close> rows stay ordered, because no comparison with the
  value of an \<^verbatim>\<open>undefined\<close> row holds.\<close>

lemma sorted_wrt_undefined_last:
  assumes "sorted_wrt R ds" and "\<And>a. R a JUndef"
  shows "sorted_wrt R (ds @ filter (\<lambda>x. x = JUndef) xs)"
proof -
  have "sorted_wrt R (filter (\<lambda>x. x = JUndef) xs)"
    using assms(2) by (induction xs) auto
  with assms show ?thesis by (auto simp: sorted_wrt_append)
qed

lemma sortContent_result:
  assumes "sortContent sorter content (Some opts) = Inr result" and "column opts \<noteq> []"
  shows "(length (filter (\<lambda>x. x \<noteq> JUndef) content) < 2
            \<and> result = filter (\<lambda>x. x \<noteq> JUndef) content @ filter (\<lambda>x. x = JUndef) content)
       \<or> (\<not> length (filter (\<lambda>x. x \<noteq> JUndef) content) < 2
          \<and> (\<forall>x\<in>set content. x \<noteq> JUndef \<longrightarrow>
                \<not> isl (getComparisonValue x (split_on CHR ''.'' (column opts))))
          \<and> result = sorter (\<lambda>a b. compare (comparisonValue (split_on CHR ''.'' (column opts)) a)
                                       (comparisonValue (split_on CHR ''.'' (column opts)) b)
                                       (direction opts = Some ''asc''))
                        (filter (\<lambda>x. x \<noteq> JUndef) content)
                     @ filter (\<lambda>x. x = JUndef) content)"
  using assms
  by (auto simp: sortContent_def Let_def array_sort_def list_ex_iff split: if_splits)


lemma filter_defined:
  "filter (\<lambda>a. a \<noteq> JUndef \<and> Q a) xs = filter Q (filter (\<lambda>x. x \<noteq> JUndef) xs)"
  by (induction xs) auto

lemma filter_defined_append:
  assumes "set ds = set (filter (\<lambda>x. x \<noteq> JUndef) xs)"
  shows "filter (\<lambda>a. a \<noteq> JUndef \<and> Q a) (ds @ filter (\<lambda>x. x = JUndef) xs) = filter Q ds"
proof -
  have "filter (\<lambda>a. a \<noteq> JUndef \<and> Q a) (filter (\<lambda>x. x = JUndef) xs) = []"
    by (induction xs) auto
  moreover have "filter (\<lambda>a. a \<noteq> JUndef \<and> Q a) ds = filter Q ds"
    using assms by (intro filter_cong) auto
  ultimately show ?thesis by simp
qed

text \<open>The order of the rows that the engine sorted, in both directions.\<close>

lemma weakly_ordered_map:
  "weakly_ordered (map k ds) \<Longrightarrow> a \<in> set ds \<Longrightarrow> b \<in> set ds \<Longrightarrow> c \<in> set ds \<Longrightarrow>
   js_lt (k a) (k c) \<Longrightarrow> js_lt (k a) (k b) \<or> js_lt (k b) (k c)"
  unfolding weakly_ordered_def by simp

lemma sorter_ascending:
  assumes "sorts sorter" and wo: "weakly_ordered (map k ds)"
  shows "sorted_wrt (\<lambda>a b. \<not> js_lt (k b) (k a)) (sorter (\<lambda>a b. compare (k a) (k b) True) ds)"
proof (rule assms(1)[unfolded sorts_def, THEN conjunct2, rule_format], intro conjI ballI impI)
  fix a b c
  assume m: "a \<in> set ds" "b \<in> set ds" "c \<in> set ds"
    and h: "\<not> js_lt (k b) (k a) \<and> \<not> js_lt (k c) (k b)"
  show "\<not> js_lt (k c) (k a)"
    using weakly_ordered_map[OF wo m(3) m(2) m(1)] h by blast
next
  fix a b
  show "if compare (k a) (k b) True < 0 then \<not> js_lt (k b) (k a) else \<not> js_lt (k a) (k b)"
    using js_lt_asym[of "k a" "k b"] by (simp add: compare_asc)
qed

lemma sorter_descending:
  assumes "sorts sorter" and wo: "weakly_ordered (map k ds)"
  shows "sorted_wrt (\<lambda>a b. \<not> js_lt (k a) (k b)) (sorter (\<lambda>a b. compare (k a) (k b) False) ds)"
proof (rule assms(1)[unfolded sorts_def, THEN conjunct2, rule_format], intro conjI ballI impI)
  fix a b c
  assume m: "a \<in> set ds" "b \<in> set ds" "c \<in> set ds"
    and h: "\<not> js_lt (k a) (k b) \<and> \<not> js_lt (k b) (k c)"
  show "\<not> js_lt (k a) (k c)"
    using weakly_ordered_map[OF wo m(1) m(2) m(3)] h by blast
next
  fix a b
  show "if compare (k a) (k b) False < 0 then \<not> js_lt (k a) (k b) else \<not> js_lt (k b) (k a)"
    using js_lt_asym[of "k a" "k b"] by (simp add: compare_desc)
qed

lemma sorter_ties:
  assumes "keeps_ties sorter" and wo: "weakly_ordered (map k ds)" and r: "r \<in> set ds"
  shows "filter (\<lambda>a. \<not> js_lt (k r) (k a) \<and> \<not> js_lt (k a) (k r))
           (sorter (\<lambda>a b. compare (k a) (k b) True) ds)
         = filter (\<lambda>a. \<not> js_lt (k r) (k a) \<and> \<not> js_lt (k a) (k r)) ds"
proof (rule assms(1)[unfolded keeps_ties_def, rule_format,
      where lt = "\<lambda>a b. js_lt (k a) (k b)"], intro conjI ballI impI)
  fix a b
  show "(compare (k a) (k b) True < 0) = js_lt (k a) (k b)" by (rule compare_asc)
next
  fix a b
  assume "js_lt (k a) (k b)"
  then show "\<not> js_lt (k b) (k a)" by (rule js_lt_asym)
next
  fix a b c
  assume "a \<in> set ds" "b \<in> set ds" "c \<in> set ds" "js_lt (k a) (k c)"
  with wo show "js_lt (k a) (k b) \<or> js_lt (k b) (k c)" by (rule weakly_ordered_map)
next
  show "r \<in> set ds" by (rule r)
qed


text \<open>
  Claim C8, as amended. Sorting compares the rows by the value resolved at the dot-path
  column. On an engine that sorts, and where \<^verbatim>\<open><\<close> orders the column values of the rows, the
  result is a permutation of the content in ascending order when the direction is
  \<^verbatim>\<open>'asc'\<close>, and in descending order with any other direction, also when none is given. The
  comparator never answers that two values are equal, so rows that \<^verbatim>\<open><\<close> does not tell
  apart keep their input order only as far as the engine keeps ties, and only for
  \<^verbatim>\<open>'asc'\<close>. Rows that lack the first property of the path, as the primitives of an array
  of primitives do, are ordered by themselves.
\<close>

theorem sortContent_order:
  assumes "sorts sorter"
    and "sortContent sorter content (Some opts) = Inr result"
    and "column opts \<noteq> []"
    and "weakly_ordered (map (comparisonValue (split_on CHR ''.'' (column opts)))
                           (filter (\<lambda>x. x \<noteq> JUndef) content))"
  shows "mset result = mset content
       \<and> (direction opts = Some ''asc'' \<longrightarrow>
            sorted_wrt (\<lambda>a b. \<not> js_lt (comparisonValue (split_on CHR ''.'' (column opts)) b)
                                     (comparisonValue (split_on CHR ''.'' (column opts)) a)) result)
       \<and> (direction opts \<noteq> Some ''asc'' \<longrightarrow>
            sorted_wrt (\<lambda>a b. \<not> js_lt (comparisonValue (split_on CHR ''.'' (column opts)) a)
                                     (comparisonValue (split_on CHR ''.'' (column opts)) b)) result)
       \<and> (keeps_ties sorter \<and> direction opts = Some ''asc'' \<longrightarrow>
            (\<forall>r\<in>set content. r \<noteq> JUndef \<longrightarrow>
               filter (\<lambda>a. a \<noteq> JUndef
                           \<and> \<not> js_lt (comparisonValue (split_on CHR ''.'' (column opts)) r)
                                      (comparisonValue (split_on CHR ''.'' (column opts)) a)
                           \<and> \<not> js_lt (comparisonValue (split_on CHR ''.'' (column opts)) a)
                                      (comparisonValue (split_on CHR ''.'' (column opts)) r)) result
               = filter (\<lambda>a. a \<noteq> JUndef
                           \<and> \<not> js_lt (comparisonValue (split_on CHR ''.'' (column opts)) r)
                                      (comparisonValue (split_on CHR ''.'' (column opts)) a)
                           \<and> \<not> js_lt (comparisonValue (split_on CHR ''.'' (column opts)) a)
                                      (comparisonValue (split_on CHR ''.'' (column opts)) r)) content))
       \<and> ((\<forall>r\<in>set content. \<not> has_own r (hd (split_on CHR ''.'' (column opts)))) \<longrightarrow>
            (direction opts = Some ''asc'' \<longrightarrow> sorted_wrt (\<lambda>a b. \<not> js_lt b a) result)
            \<and> (direction opts \<noteq> Some ''asc'' \<longrightarrow> sorted_wrt (\<lambda>a b. \<not> js_lt a b) result))"
proof -
  define ps where "ps = split_on CHR ''.'' (column opts)"
  define k where "k = comparisonValue ps"
  define ds where "ds = filter (\<lambda>x. x \<noteq> JUndef) content"
  define us where "us = filter (\<lambda>x. x = JUndef) content"
  define asc where "asc = (direction opts = Some ''asc'')"
  define ss where "ss = (if length ds < 2 then ds else sorter (\<lambda>a b. compare (k a) (k b) asc) ds)"
  have wo: "weakly_ordered (map k ds)"
    using assms(4) by (simp add: k_def ps_def ds_def)
  have kU [simp]: "k JUndef = JUndef" by (simp add: k_def)
  have ps: "ps \<noteq> []" by (simp add: ps_def split_on_nonempty)
  from sortContent_result[OF assms(2,3)]
  have res: "result = ss @ us"
    and ok: "\<not> length ds < 2 \<Longrightarrow> x \<in> set ds \<Longrightarrow> \<not> isl (getComparisonValue x ps)" for x
    by (auto simp: ss_def ds_def us_def k_def ps_def asc_def)
  have mss: "mset ss = mset ds"
    using assms(1) by (simp add: ss_def sorts_def)
  then have sss: "set ss = set ds" by (rule mset_eq_setD)
  have m: "mset result = mset content"
    using mset_defined_undefined[of content] by (simp add: res mss ds_def us_def)
  have short: "sorted_wrt R ss" if "length ds < 2" for R
    using that short_cases[of ds] by (auto simp: ss_def)
  have a0: "sorted_wrt (\<lambda>a b. \<not> js_lt (k b) (k a)) ss" if "asc"
  proof (cases "length ds < 2")
    case True
    then show ?thesis by (rule short)
  next
    case False
    with that sorter_ascending[OF assms(1) wo] show ?thesis by (simp add: ss_def)
  qed
  have d0: "sorted_wrt (\<lambda>a b. \<not> js_lt (k a) (k b)) ss" if "\<not> asc"
  proof (cases "length ds < 2")
    case True
    then show ?thesis by (rule short)
  next
    case False
    with that sorter_descending[OF assms(1) wo] show ?thesis by (simp add: ss_def)
  qed
  have a: "sorted_wrt (\<lambda>a b. \<not> js_lt (k b) (k a)) result" if "asc"
    unfolding res us_def by (rule sorted_wrt_undefined_last[OF a0[OF that]]) simp
  have d: "sorted_wrt (\<lambda>a b. \<not> js_lt (k a) (k b)) result" if "\<not> asc"
    unfolding res us_def by (rule sorted_wrt_undefined_last[OF d0[OF that]]) simp
  have t: "filter (\<lambda>a. a \<noteq> JUndef \<and> \<not> js_lt (k r) (k a) \<and> \<not> js_lt (k a) (k r)) result
         = filter (\<lambda>a. a \<noteq> JUndef \<and> \<not> js_lt (k r) (k a) \<and> \<not> js_lt (k a) (k r)) content"
    if "keeps_ties sorter" "asc" "r \<in> set content" "r \<noteq> JUndef" for r
  proof -
    from that(3,4) have r: "r \<in> set ds" by (simp add: ds_def)
    have "filter (\<lambda>a. \<not> js_lt (k r) (k a) \<and> \<not> js_lt (k a) (k r)) ss
        = filter (\<lambda>a. \<not> js_lt (k r) (k a) \<and> \<not> js_lt (k a) (k r)) ds"
      using sorter_ties[OF that(1) wo r] that(2) by (simp add: ss_def)
    moreover have "filter (\<lambda>a. a \<noteq> JUndef \<and> \<not> js_lt (k r) (k a) \<and> \<not> js_lt (k a) (k r)) result
        = filter (\<lambda>a. \<not> js_lt (k r) (k a) \<and> \<not> js_lt (k a) (k r)) ss"
      unfolding res us_def by (rule filter_defined_append) (simp add: sss ds_def)
    moreover have "filter (\<lambda>a. a \<noteq> JUndef \<and> \<not> js_lt (k r) (k a) \<and> \<not> js_lt (k a) (k r)) content
        = filter (\<lambda>a. \<not> js_lt (k r) (k a) \<and> \<not> js_lt (k a) (k r)) ds"
      unfolding ds_def by (rule filter_defined)
    ultimately show ?thesis by simp
  qed
  have p: "(asc \<longrightarrow> sorted_wrt (\<lambda>a b. \<not> js_lt b a) result)
         \<and> (\<not> asc \<longrightarrow> sorted_wrt (\<lambda>a b. \<not> js_lt a b) result)"
    if own: "\<forall>r\<in>set content. \<not> has_own r (hd ps)"
  proof (cases "length ds < 2")
    case True
    have "sorted_wrt R (ss @ filter (\<lambda>x. x = JUndef) content)" if "\<And>a. R a JUndef" for R
      using short[OF True] that by (rule sorted_wrt_undefined_last)
    then show ?thesis unfolding res us_def by simp
  next
    case False
    have self: "k x = x" if "x \<in> set result" for x
    proof (cases "x = JUndef")
      case True
      then show ?thesis by simp
    next
      case x: False
      with that have xd: "x \<in> set ds" and xc: "x \<in> set content"
        by (auto simp: res sss us_def ds_def)
      from ok[OF False xd] obtain v where "getComparisonValue x ps = Inr v"
        by (cases "getComparisonValue x ps") auto
      then show ?thesis
        unfolding k_def using ps own xc by (intro comparisonValue_itself) auto
    qed
    have "sorted_wrt (\<lambda>a b. \<not> js_lt b a) result" if "asc"
      using a[OF that] by (rule sorted_wrt_mono_rel[rotated]) (simp add: self)
    moreover have "sorted_wrt (\<lambda>a b. \<not> js_lt a b) result" if "\<not> asc"
      using d[OF that] by (rule sorted_wrt_mono_rel[rotated]) (simp add: self)
    ultimately show ?thesis by blast
  qed
  from m a d t p show ?thesis
    unfolding k_def ps_def asc_def by blast
qed


theorem sortContent_order_witness:
  "sortContent insertionSort
     [JObj [(''x'', JStr ''b''), (''t'', JNum 1)], JObj [(''x'', JStr ''a'')],
      JObj [(''x'', JStr ''b''), (''t'', JNum 2)]]
     (Some \<lparr>column = ''x'', direction = Some ''asc''\<rparr>)
   = Inr [JObj [(''x'', JStr ''a'')], JObj [(''x'', JStr ''b''), (''t'', JNum 1)],
          JObj [(''x'', JStr ''b''), (''t'', JNum 2)]]
   \<and> mset [JObj [(''x'', JStr ''a'')], JObj [(''x'', JStr ''b''), (''t'', JNum 1)],
            JObj [(''x'', JStr ''b''), (''t'', JNum 2)]]
     = mset [JObj [(''x'', JStr ''b''), (''t'', JNum 1)], JObj [(''x'', JStr ''a'')],
             JObj [(''x'', JStr ''b''), (''t'', JNum 2)]]
   \<and> sorted_wrt (\<lambda>a b. \<not> js_lt (comparisonValue [''x''] b) (comparisonValue [''x''] a))
        [JObj [(''x'', JStr ''a'')], JObj [(''x'', JStr ''b''), (''t'', JNum 1)],
         JObj [(''x'', JStr ''b''), (''t'', JNum 2)]]
   \<and> filter (\<lambda>a. a \<noteq> JUndef
                 \<and> \<not> js_lt (JStr ''b'') (comparisonValue [''x''] a)
                 \<and> \<not> js_lt (comparisonValue [''x''] a) (JStr ''b''))
        [JObj [(''x'', JStr ''a'')], JObj [(''x'', JStr ''b''), (''t'', JNum 1)],
         JObj [(''x'', JStr ''b''), (''t'', JNum 2)]]
     = [JObj [(''x'', JStr ''b''), (''t'', JNum 1)], JObj [(''x'', JStr ''b''), (''t'', JNum 2)]]
   \<and> sortContent insertionSort [JNum 2, JNum 3, JNum 1]
        (Some \<lparr>column = ''x'', direction = Some ''desc''\<rparr>)
     = Inr [JNum 3, JNum 2, JNum 1]
   \<and> sorted_wrt (\<lambda>a b. \<not> js_lt a b) [JNum 3, JNum 2, JNum 1]"
proof -
  let ?c = "[JObj [(''x'', JStr ''b''), (''t'', JNum 1)], JObj [(''x'', JStr ''a'')],
      JObj [(''x'', JStr ''b''), (''t'', JNum 2)]]"
  let ?o = "\<lparr>column = ''x'', direction = Some ''asc''\<rparr>"
  let ?r = "[JObj [(''x'', JStr ''a'')], JObj [(''x'', JStr ''b''), (''t'', JNum 1)],
          JObj [(''x'', JStr ''b''), (''t'', JNum 2)]]"
  let ?d = "\<lparr>column = ''x'', direction = Some ''desc''\<rparr>"
  have path: "split_on CHR ''.'' ''x'' = [''x'']" by simp
  have h2: "sortContent insertionSort ?c (Some ?o) = Inr ?r" by code_simp
  have h3: "column ?o \<noteq> []" by simp
  have h4: "weakly_ordered (map (comparisonValue (split_on CHR ''.'' (column ?o)))
                             (filter (\<lambda>x. x \<noteq> JUndef) ?c))"
    by code_simp
  have k: "comparisonValue [''x''] (JObj [(''x'', JStr ''b''), (''t'', JNum 1)]) = JStr ''b''"
    by code_simp
  have c: "filter (\<lambda>a. a \<noteq> JUndef
                 \<and> \<not> js_lt (JStr ''b'') (comparisonValue [''x''] a)
                 \<and> \<not> js_lt (comparisonValue [''x''] a) (JStr ''b'')) ?c
      = [JObj [(''x'', JStr ''b''), (''t'', JNum 1)], JObj [(''x'', JStr ''b''), (''t'', JNum 2)]]"
    by code_simp
  have g2: "sortContent insertionSort [JNum 2, JNum 3, JNum 1] (Some ?d)
            = Inr [JNum 3, JNum 2, JNum 1]" by code_simp
  have g3: "column ?d \<noteq> []" by simp
  have g4: "weakly_ordered (map (comparisonValue (split_on CHR ''.'' (column ?d)))
                             (filter (\<lambda>x. x \<noteq> JUndef) [JNum 2, JNum 3, JNum 1]))"
    by code_simp
  have g5: "\<forall>r\<in>set [JNum 2, JNum 3, JNum 1]. \<not> has_own r (hd (split_on CHR ''.'' (column ?d)))"
    by code_simp
  note first = sortContent_order[OF sorts_insertionSort h2 h3 h4]
  note second = sortContent_order[OF sorts_insertionSort g2 g3 g4]
  from first have "mset ?r = mset ?c" by blast
  moreover from first
  have "sorted_wrt (\<lambda>a b. \<not> js_lt (comparisonValue [''x''] b) (comparisonValue [''x''] a)) ?r"
    by (simp add: path)
  moreover have "filter (\<lambda>a. a \<noteq> JUndef
                 \<and> \<not> js_lt (JStr ''b'') (comparisonValue [''x''] a)
                 \<and> \<not> js_lt (comparisonValue [''x''] a) (JStr ''b'')) ?r
        = filter (\<lambda>a. a \<noteq> JUndef
                 \<and> \<not> js_lt (JStr ''b'') (comparisonValue [''x''] a)
                 \<and> \<not> js_lt (comparisonValue [''x''] a) (JStr ''b'')) ?c"
  proof -
    have asc: "direction ?o = Some ''asc''" by simp
    have r: "JObj [(''x'', JStr ''b''), (''t'', JNum 1)] \<in> set ?c" by simp
    have u: "JObj [(''x'', JStr ''b''), (''t'', JNum 1)] \<noteq> JUndef" by simp
    have p: "split_on CHR ''.'' (column ?o) = [''x'']" by simp
    from first[THEN conjunct2, THEN conjunct2, THEN conjunct2, THEN conjunct1, rule_format,
        OF conjI[OF keeps_ties_insertionSort asc] r u]
    show ?thesis unfolding p k .
  qed
  moreover from second g5 have "sorted_wrt (\<lambda>a b. \<not> js_lt a b) [JNum 3, JNum 2, JNum 1]"
    by simp
  ultimately show ?thesis using h2 g2 c by simp
qed

text \<open>
  Claim C8 as stated fails in two places. The order does not default to ascending: with a
  column and no direction, two rows given in ascending order come back in descending order
  (\<^verbatim>\<open>options.direction === 'asc'\<close> is false for a missing direction). And the sort is not
  stable: in descending order the comparator answers \<open>-1\<close> for two rows with equal values,
  in both orders, and the insertion puts the later row first. The third evaluation shows
  why the values have to be ordered by \<^verbatim>\<open><\<close>: \<^verbatim>\<open>'9' < 50\<close>, \<^verbatim>\<open>50 < '100'\<close> and \<^verbatim>\<open>'100' < '9'\<close>
  all hold, and the result of the ascending sort has \<^verbatim>\<open>'100'\<close> after \<^verbatim>\<open>'9'\<close>.
\<close>

theorem sortContent_counterexample:
  "sortContent insertionSort [JObj [(''x'', JNum 1)], JObj [(''x'', JNum 2)]]
     (Some \<lparr>column = ''x'', direction = None\<rparr>)
   = Inr [JObj [(''x'', JNum 2)], JObj [(''x'', JNum 1)]]
   \<and> sortContent insertionSort
       [JObj [(''x'', JNum 1), (''t'', JNum 1)], JObj [(''x'', JNum 1), (''t'', JNum 2)]]
       (Some \<lparr>column = ''x'', direction = Some ''desc''\<rparr>)
     = Inr [JObj [(''x'', JNum 1), (''t'', JNum 2)], JObj [(''x'', JNum 1), (''t'', JNum 1)]]
   \<and> sortContent insertionSort
       [JObj [(''x'', JStr ''100'')], JObj [(''x'', JNum 50)], JObj [(''x'', JStr ''9'')]]
       (Some \<lparr>column = ''x'', direction = Some ''asc''\<rparr>)
     = Inr [JObj [(''x'', JStr ''9'')], JObj [(''x'', JNum 50)], JObj [(''x'', JStr ''100'')]]
   \<and> js_lt (JStr ''100'') (JStr ''9'')"
  by code_simp

subsection \<open>The identity check\<close>

lemma extractUuid_missing_or_empty:
  "v \<in> {JUndef, JStr []} \<Longrightarrow> \<not> truthy (extractUuid v)"
proof -
  assume "v \<in> {JUndef, JStr []}"
  then consider "v = JUndef" | "v = JStr []" by auto
  then show ?thesis
  proof cases
    case 1
    have "first_uuid ''undefined'' = None" by code_simp
    with 1 show ?thesis by (simp add: extractUuid_def)
  next
    case 2
    then show ?thesis by (simp add: extractUuid_def)
  qed
qed

lemma zip_mem: "i < length xs \<Longrightarrow> (i, xs ! i) \<in> set (zip [0..<length xs] xs)"
  by (auto simp: set_zip intro!: exI[of _ i])

lemma mapE_fails:
  assumes "x \<in> set xs" and "f x = Inl e"
      and "\<And>y e'. y \<in> set xs \<Longrightarrow> f y = Inl e' \<Longrightarrow> e' = e"
  shows "mapE f xs = Inl e"
  using assms
proof (induction xs)
  case Nil
  then show ?case by simp
next
  case (Cons a xs)
  show ?case
  proof (cases "f a")
    case (Inl e')
    have "a \<in> set (a # xs)" by simp
    from Cons.prems(3)[OF this Inl] have "e' = e" .
    with Inl show ?thesis by simp
  next
    case (Inr y)
    have "x \<noteq> a" using Inr Cons.prems(2) by auto
    with Cons.prems(1) have mem: "x \<in> set xs" by simp
    have "mapE f xs = Inl e"
    proof (rule Cons.IH[OF mem Cons.prems(2)])
      fix y e' assume "y \<in> set xs" and fy: "f y = Inl e'"
      then have "y \<in> set (a # xs)" by simp
      from Cons.prems(3)[OF this fy] show "e' = e" .
    qed
    with Inr show ?thesis by simp
  qed
qed

lemma createItemWithIdKeyValue_faults:
  "createItemWithIdKeyValue name pk item g = Inl e \<Longrightarrow> e = NoPrimaryKeyInObjectError name pk"
  unfolding createItemWithIdKeyValue_def getPrimaryKeyValue_def
  by (cases "truthy (extractUuid (js_get (combineGenerated item g) pk))") simp_all

lemma loc_options: "map_of (optionsMap locationPersisted) ''Location'' = Some locationOptions"
  by code_simp

lemma second_item_empty:
  "js_get (combineGenerated
      (asArray (JArr [JObj [(''@id'', JStr ''/api/locations/2'')], JObj [(''name'', JStr ''Test'')]]) ! 1)
      []) (primaryKey locationOptions) \<in> {JUndef, JStr []}"
  by code_simp

lemma postExtend_fails:
  assumes "map_of (optionsMap st) name = Some options"
      and "i < length (asArray content)"
      and "js_get (combineGenerated (asArray content ! i) (generated i)) (primaryKey options)
             \<in> {JUndef, JStr []}"
  shows "postExtend st name content generated
           = Inl (NoPrimaryKeyInObjectError name (primaryKey options))"
proof -
  let ?f = "\<lambda>indexed. createItemWithIdKeyValue name (primaryKey options) (snd indexed)
                        (generated (fst indexed))"
  let ?xs = "zip [0..<length (asArray content)] (asArray content)"
  have "(i, asArray content ! i) \<in> set ?xs"
    using assms(2) by (rule zip_mem)
  moreover have "?f (i, asArray content ! i) = Inl (NoPrimaryKeyInObjectError name (primaryKey options))"
    using extractUuid_missing_or_empty[OF assms(3)]
    by (simp add: createItemWithIdKeyValue_def getPrimaryKeyValue_def)
  moreover have "\<And>y e'. y \<in> set ?xs \<Longrightarrow> ?f y = Inl e'
      \<Longrightarrow> e' = NoPrimaryKeyInObjectError name (primaryKey options)"
    by (rule createItemWithIdKeyValue_faults)
  ultimately have "mapE ?f ?xs = Inl (NoPrimaryKeyInObjectError name (primaryKey options))"
    by (rule mapE_fails)
  with assms(1) show ?thesis by (simp add: postExtend_def)
qed

lemma location_opened: "indexedDb locationPersisted = Opened"
  by code_simp

text \<open>Claim C6, as amended. On an open database, adding content to a registered store
  (\<^verbatim>\<open>post\<close>) fails with \<^verbatim>\<open>NoPrimaryKeyInObjectError\<close>, naming the store and its primary-key
  property, as soon as one item of the content (after the generated values are merged in)
  has no primary-key value or an empty one; nothing is written. This check exists in
  \<^verbatim>\<open>post\<close> only.\<close>

theorem post_missing_primary_key:
  assumes "indexedDb st = Opened"
      and "map_of (optionsMap st) name = Some options"
      and "i < length (asArray content)"
      and "js_get (combineGenerated (asArray content ! i) (generated i)) (primaryKey options)
             \<in> {JUndef, JStr []}"
  shows "post n updateParents eng generated st name content
           = Some (Fails (NoPrimaryKeyInObjectError name (primaryKey options)), st)"
  using postExtend_fails[of st name options i content generated, OF assms(2,3,4)] assms(1)
  by (simp add: post_def)

theorem post_missing_primary_key_witness:
  "post 1 noParents accepts_all (\<lambda>i. []) locationPersisted ''Location''
     (JArr [JObj [(''@id'', JStr ''/api/locations/2'')], JObj [(''name'', JStr ''Test'')]])
   = Some (Fails (NoPrimaryKeyInObjectError ''Location'' ''@id''), locationPersisted)"
  using post_missing_primary_key
    [of locationPersisted "''Location''" locationOptions 1
        "JArr [JObj [(''@id'', JStr ''/api/locations/2'')], JObj [(''name'', JStr ''Test'')]]"
        "\<lambda>i. []" 1 noParents accepts_all, OF location_opened loc_options _ second_item_empty]
  by (simp add: locationOptions_def)

text \<open>Claim C6 as stated fails for the other write operations, and for \<^verbatim>\<open>post\<close> itself while
  no database is open. \<^verbatim>\<open>persist\<close> and \<^verbatim>\<open>put\<close> have no such check: content whose primary
  key is the empty string is written (the row is stored under the empty key), and content
  without the primary-key property fails with the \<^verbatim>\<open>DataError\<close> of the engine, raised by
  the \<^verbatim>\<open>put\<close> request. After a first \<^verbatim>\<open>persist\<close> that failed before it opened the database,
  the store is registered, and \<^verbatim>\<open>post\<close> of content without a primary key emits nothing.\<close>

theorem missing_primary_key_counterexample:
  "fst (persist accepts_all (JObj [(''id'', JStr []), (''name'', JStr ''x'')]) thingOptions
          initialService)
     = Emits [PersistenceResult ''Thing'' 0]
   \<and> rowsOf (snd (persist accepts_all (JObj [(''id'', JStr []), (''name'', JStr ''x'')])
                     thingOptions initialService)) ''Thing''
     = [(JStr [], JObj [(''id'', JStr []), (''name'', JStr ''x''), (''__pkey__'', JStr [])])]
   \<and> fst (persist accepts_all (JObj [(''name'', JStr ''x'')]) thingOptions initialService)
     = Fails (DOMException ''DataError'')
   \<and> map_option fst (put 1 noParents accepts_all thingPersisted ''Thing''
                        (JObj [(''id'', JStr []), (''name'', JStr ''y'')]))
     = Some (Emits (JObj [(''id'', JStr []), (''name'', JStr ''y'')]))
   \<and> map_option (\<lambda>result. rowsOf (snd result) ''Thing'')
        (put 1 noParents accepts_all thingPersisted ''Thing''
           (JObj [(''id'', JStr []), (''name'', JStr ''y'')]))
     = Some [(JStr ''a'', JObj [(''id'', JStr ''a''), (''name'', JStr ''x''), (''__pkey__'', JStr ''a'')]),
             (JStr [], JObj [(''id'', JStr []), (''name'', JStr ''y''), (''__pkey__'', JStr [])])]
   \<and> map_option fst (put 1 noParents accepts_all thingPersisted ''Thing''
                        (JObj [(''name'', JStr ''y'')]))
     = Some (Fails (DOMException ''DataError''))
   \<and> fst (persist accepts_all (JObj [(''id'', JStr ''a''), (''name'', JNull)]) thingOptions
            initialService)
     = Fails TypeError
   \<and> map_of (optionsMap thingRegistered) ''Thing'' = Some thingOptions
   \<and> map_option fst (post 1 noParents accepts_all (\<lambda>i. []) thingRegistered ''Thing''
                        (JObj [(''name'', JStr ''y'')]))
     = Some Silent"
  by code_simp

subsection \<open>The Location and Person scenario\<close>

text \<open>The identity of the scenario's Location is not \<^verbatim>\<open>"1"\<close>: its primary-key value
  \<^verbatim>\<open>/api/locations/1\<close> holds no UUID, so \<^verbatim>\<open>extractUuid\<close> returns it unchanged, and both the
  Location row and the copy embedded in the Person row carry the whole value as
  \<^verbatim>\<open>__pkey__\<close>.\<close>

theorem scenario_location_key_counterexample:
  "extractUuid (JStr ''/api/locations/1'') = JStr ''/api/locations/1''
   \<and> map (\<lambda>row. js_get (snd row) idKey) (rowsOf personPersisted ''Location'')
       = [JStr ''/api/locations/1'']
   \<and> map (\<lambda>row. js_get (js_get (snd row) ''location'') idKey) (rowsOf personPersisted ''Person'')
       = [JStr ''/api/locations/1'']
   \<and> JStr ''/api/locations/1'' \<noteq> JStr ''1''"
  by code_simp

text \<open>Claim C3, as amended. Persisting the Location and then the Person succeeds; the
  Location store then holds exactly one row, with \<^verbatim>\<open>__pkey__\<close> equal to
  \<^verbatim>\<open>/api/locations/1\<close>; the \<^verbatim>\<open>location\<close> field of the Person row is the Location tagged with
  \<^verbatim>\<open>__store__\<close> and that \<^verbatim>\<open>__pkey__\<close>; and reading the Person by its key returns the
  content that was persisted, the tags stripped.\<close>

theorem scenario_location_person:
  "fst (persist accepts_all locationContent locationOptions initialService)
     = Emits [PersistenceResult ''Location'' 0]
   \<and> fst (persist accepts_all personContent personOptions locationPersisted)
     = Emits [PersistenceResult ''Location'' 0, PersistenceResult ''Person'' 0]
   \<and> rowsOf personPersisted ''Location''
     = [(JStr ''/api/locations/1'',
         JObj [(''@id'', JStr ''/api/locations/1''), (''name'', JStr ''Test''),
               (''__pkey__'', JStr ''/api/locations/1'')])]
   \<and> rowsOf personPersisted ''Person''
     = [(JStr ''p1'',
         JObj [(''id'', JStr ''p1''),
               (''location'',
                JObj [(''@id'', JStr ''/api/locations/1''), (''name'', JStr ''Test''),
                      (''__store__'', JStr ''Location''),
                      (''__pkey__'', JStr ''/api/locations/1'')]),
               (''__pkey__'', JStr ''p1'')])]
   \<and> getByKey 2 personPersisted ''Person'' (JStr ''p1'')
     = Some (Emits (JObj [(''id'', JStr ''p1''),
                          (''location'',
                           JObj [(''@id'', JStr ''/api/locations/1''),
                                 (''name'', JStr ''Test'')])]))"
  by code_simp

subsection \<open>Reading back what was persisted\<close>

text \<open>Claim C1 at the input \<^verbatim>\<open>{ id: 'a', tags: ['x'] }\<close>: the row is stored with its array
  of strings intact, but reading it back by key returns the array element as the object
  \<^verbatim>\<open>{ '0': 'x' }\<close>, since \<^verbatim>\<open>cleanNested\<close> copies every array element with
  \<^verbatim>\<open>Object.assign({}, item)\<close>.\<close>

theorem persist_get_array_of_strings:
  "fst (persist accepts_all (JObj [(''id'', JStr ''a''), (''tags'', JArr [JStr ''x''])])
          thingOptions initialService)
     = Emits [PersistenceResult ''Thing'' 0]
   \<and> rowsOf (snd (persist accepts_all (JObj [(''id'', JStr ''a''), (''tags'', JArr [JStr ''x''])])
                     thingOptions initialService)) ''Thing''
     = [(JStr ''a'',
         JObj [(''id'', JStr ''a''), (''tags'', JArr [JStr ''x'']), (''__pkey__'', JStr ''a'')])]
   \<and> getByKey 1 (snd (persist accepts_all
                           (JObj [(''id'', JStr ''a''), (''tags'', JArr [JStr ''x''])])
                           thingOptions initialService)) ''Thing'' (JStr ''a'')
     = Some (Emits (JObj [(''id'', JStr ''a''), (''tags'', JArr [JObj [(''0'', JStr ''x'')]])]))"
  by code_simp

subsection \<open>A rejected row in the write transaction\<close>

text \<open>While the requests are issued nothing has failed yet: \<^verbatim>\<open>errors\<close> is still empty when
  the last item inspects it, so the \<^verbatim>\<open>IndexedDBAddError\<close> is never signalled. The only faults
  of the write transaction are the exceptions raised synchronously.\<close>

lemma issue_puts_errors:
  "errors run = [] \<Longrightarrow> issue_puts name items run = (sync, run') \<Longrightarrow>
     errors run' = [] \<and> (\<forall>e. sync \<noteq> Signalled e)"
proof (induction name items run rule: issue_puts.induct)
  case (1 name run)
  then show ?case by auto
next
  case (2 name item rest run)
  show ?case
  proof (cases "valid_key (js_get item idKey)")
    case False
    with "2.prems" show ?thesis by auto
  next
    case True
    let ?run = "run\<lparr>requests := requests run @ [item],
                           updated := AList.update (js_get item idKey) item (updated run)\<rparr>"
    have e: "errors ?run = []" using "2.prems"(1) by simp
    show ?thesis
    proof (cases "rest = []")
      case True
      with \<open>valid_key (js_get item idKey)\<close> "2.prems" e show ?thesis
        by (auto simp: Let_def)
    next
      case False
      with \<open>valid_key (js_get item idKey)\<close> "2.prems"(2)
      have "issue_puts name rest ?run = (sync, run')" by (simp add: Let_def)
      with "2.IH"[of ?run] \<open>valid_key (js_get item idKey)\<close> False e show ?thesis by simp
    qed
  qed
qed


lemma issue_puts_threw:
  "issue_puts name items run = (Threw e, run') \<Longrightarrow> e = DOMException ''DataError''"
proof (induction name items run rule: issue_puts.induct)
  case (1 name run)
  then show ?case by simp
next
  case (2 name item rest run)
  show ?case
  proof (cases "valid_key (js_get item idKey)")
    case False
    with "2.prems" show ?thesis by simp
  next
    case True
    let ?run = "run\<lparr>requests := requests run @ [item],
                           updated := AList.update (js_get item idKey) item (updated run)\<rparr>"
    show ?thesis
    proof (cases "rest = []")
      case True
      with \<open>valid_key (js_get item idKey)\<close> "2.prems" show ?thesis
        by (simp add: Let_def split: if_splits)
    next
      case False
      with \<open>valid_key (js_get item idKey)\<close> "2.prems"
      have "issue_puts name rest ?run = (Threw e, run')" by (simp add: Let_def)
      with "2.IH"[of ?run] \<open>valid_key (js_get item idKey)\<close> False show ?thesis by simp
    qed
  qed
qed

lemma createQueueObservable_faults:
  assumes "fst (createQueueObservable eng om lm name content rows) = Fails e"
  shows "e = DOMException ''DataError''"
proof -
  obtain sync run where ip: "issue_puts name (addRelationsToContent om lm content (map_of lm name))
             \<lparr>errors = [], updated = [], requests = []\<rparr> = (sync, run)"
    by (cases "issue_puts name (addRelationsToContent om lm content (map_of lm name))
             \<lparr>errors = [], updated = [], requests = []\<rparr>") auto
  obtain rows' run' ok where st: "settle eng name (requests run) (rows, run, False) = (rows', run', ok)"
    by (cases "settle eng name (requests run) (rows, run, False)") auto
  from issue_puts_errors[OF _ ip] have ns: "\<forall>e. sync \<noteq> Signalled e" by simp
  from assms ip st have "(case sync of Threw e \<Rightarrow> Fails e | Signalled e \<Rightarrow> Fails e
       | AwaitLast \<Rightarrow> if ok then Emits (updated run') else Silent | LoopEnded \<Rightarrow> Silent) = Fails e"
    by (simp add: createQueueObservable_def)
  with ns have "sync = Threw e"
    by (cases sync) (auto split: if_splits)
  with ip show ?thesis by (auto dest: issue_puts_threw)
qed

lemma mapE_faults:
  "mapE f xs = Inl e \<Longrightarrow> \<exists>x \<in> set xs. f x = Inl e"
proof (induction xs)
  case Nil
  then show ?case by simp
next
  case (Cons a xs)
  show ?case
  proof (cases "f a")
    case (Inl e')
    with Cons.prems show ?thesis by simp
  next
    case (Inr y)
    with Cons.prems have "mapE f xs = Inl e" by (simp split: sum.splits)
    with Cons.IH show ?thesis by auto
  qed
qed

lemma addIdKeyToContent_faults:
  "addIdKeyToContent content pk = Inl e \<Longrightarrow> e = TypeError"
  unfolding addIdKeyToContent_def
  by (drule mapE_faults) (auto split: if_splits)

lemma createBatchInsertObservable_faults:
  "fst (createBatchInsertObservable eng om lm entries added db) = Fails e \<Longrightarrow>
     e = TypeError \<or> e = DOMException ''DataError''"
proof (induction eng om lm entries added db rule: createBatchInsertObservable.induct)
  case (1 eng om lm addedMap db)
  then show ?case by simp
next
  case (2 eng om lm name content entries addedMap db)
  show ?case
  proof (cases "map_of om name")
    case None
    with "2.prems" show ?thesis by simp
  next
    case (Some options)
    show ?thesis
    proof (cases "addIdKeyToContent content (primaryKey options)")
      case (Inl e')
      with Some "2.prems" have "e' = e" by simp
      with Inl show ?thesis by (auto dest: addIdKeyToContent_faults)
    next
      case (Inr items)
      let ?old = "case map_of db name of Some rows \<Rightarrow> rows | None \<Rightarrow> []"
      obtain out rows where q: "createQueueObservable eng om lm name items ?old = (out, rows)"
        by (cases "createQueueObservable eng om lm name items ?old") auto
      show ?thesis
      proof (cases out)
        case (Emits queueMap)
        with "2.IH"[OF Some Inr q[symmetric] Emits] "2.prems" Some Inr q show ?thesis by simp
      next
        case (Fails e')
        with "2.prems" Some Inr q have "e' = e" by simp
        with Fails q createQueueObservable_faults[of eng om lm name items ?old e]
        show ?thesis by simp
      next
        case Silent
        with "2.prems" Some Inr q show ?thesis by simp
      qed
    qed
  qed
qed

lemma insertLinkedItemsInStores_never_aggregates:
  "fst (insertLinkedItemsInStores eng om lm db queuedItems) \<noteq> Fails (IndexedDBAddError name messages)"
proof
  assume a: "fst (insertLinkedItemsInStores eng om lm db queuedItems) = Fails (IndexedDBAddError name messages)"
  show False
  proof (cases "queuedItems = [] \<or> list_ex (\<lambda>name. map_of db name = None) (map fst queuedItems)")
    case True
    with a show False by (auto simp: insertLinkedItemsInStores_def split: if_splits)
  next
    case False
    with a have "fst (createBatchInsertObservable eng om lm queuedItems [] db)
        = Fails (IndexedDBAddError name messages)"
      by (simp add: insertLinkedItemsInStores_def)
    from createBatchInsertObservable_faults[OF this] show False by simp
  qed
qed

text \<open>Claim C5 at three users of which the second collides with the first on the unique
  e-mail address: the second write is rejected, the call reports success, and the first and
  third rows are committed. When the rejected write is the last one the call neither emits
  nor fails; the first row is committed.\<close>

theorem persist_rejected_row:
  "fst (persist (rejects_duplicate ''email'')
          (JArr [user ''u1'' ''a@x'', user ''u2'' ''a@x'', user ''u3'' ''b@x'']) userOptions
          initialService)
     = Emits [PersistenceResult ''User'' 0]
   \<and> map fst (rowsOf (snd (persist (rejects_duplicate ''email'')
                             (JArr [user ''u1'' ''a@x'', user ''u2'' ''a@x'', user ''u3'' ''b@x''])
                             userOptions initialService)) ''User'')
     = [JStr ''u1'', JStr ''u3'']
   \<and> fst (persist (rejects_duplicate ''email'')
            (JArr [user ''u1'' ''a@x'', user ''u2'' ''a@x'']) userOptions initialService)
     = Silent
   \<and> map fst (rowsOf (snd (persist (rejects_duplicate ''email'')
                             (JArr [user ''u1'' ''a@x'', user ''u2'' ''a@x''])
                             userOptions initialService)) ''User'')
     = [JStr ''u1'']"
  by code_simp

subsection \<open>Deleting an embedded row\<close>

text \<open>Claim C4 at a Person that embeds a Location, with the policy \<^verbatim>\<open>DELETE\<close> on the Person
  store: deleting the Location removes its row, but the Person store is the topmost
  ancestor, its \<^verbatim>\<open>ParentDelete\<close> gets no \<^verbatim>\<open>path\<close>, and joining the missing path raises a
  TypeError before any Person row is visited; the Person row keeps its \<^verbatim>\<open>location\<close>. With a
  Team above the Person the paths exist and the rows are rewritten; the policy \<^verbatim>\<open>NULL\<close> then
  leaves \<^verbatim>\<open>undefined\<close> in the rewritten rows, since \<^verbatim>\<open>addRelationsToContent\<close> replaces the
  \<^verbatim>\<open>null\<close> of a linked property by the first element of an empty list.\<close>

theorem deleteRows_embedded_location:
  "map_option fst (deleteRows 2 accepts_all (personCascadePersisted (Some DELETE)) ''Location''
                     (JStr ''/api/locations/1''))
     = Some (Fails TypeError)
   \<and> map_option (\<lambda>result. rowsOf (snd result) ''Location'')
         (deleteRows 2 accepts_all (personCascadePersisted (Some DELETE)) ''Location''
            (JStr ''/api/locations/1''))
     = Some []
   \<and> map_option (\<lambda>result. rowsOf (snd result) ''Person'')
         (deleteRows 2 accepts_all (personCascadePersisted (Some DELETE)) ''Location''
            (JStr ''/api/locations/1''))
     = Some [(JStr ''p1'',
              JObj [(''id'', JStr ''p1''),
                    (''location'',
                     JObj [(''@id'', JStr ''/api/locations/1''), (''name'', JStr ''Test''),
                           (''__store__'', JStr ''Location''),
                           (''__pkey__'', JStr ''/api/locations/1'')]),
                    (''__pkey__'', JStr ''p1'')])]
   \<and> map_option (\<lambda>result. rowsOf (snd result) ''Person'')
         (deleteRows 3 accepts_all (teamPersisted (Some NULL)) ''Location''
            (JStr ''/api/locations/1''))
     = Some [(JStr ''p1'',
              JObj [(''id'', JStr ''p1''), (''location'', JUndef), (''__pkey__'', JStr ''p1'')])]"
  by code_simp

subsection \<open>Clearing a missing store\<close>

text \<open>Claim C10 at the store \<^verbatim>\<open>Team\<close>, which the database of the scenario does not have:
  the subscriber receives \<^verbatim>\<open>true\<close> and then the \<^verbatim>\<open>NotFoundError\<close> of the transaction that
  is opened all the same.\<close>

theorem clear_missing_store:
  "fst (clear None personPersisted ''Team'')
     = [Next True, Error (DOMException ''NotFoundError'')]"
  by code_simp

subsection \<open>One row per identity\<close>

text \<open>The upgrade step: a registered store that is marked for an update is empty afterwards.\<close>

lemma recreate_keeps_empty:
  assumes "name \<in> set updates" and "map_of db name = Some []"
  shows "map_of (fold (\<lambda>n db. if map_of db n \<noteq> None \<and> n \<notin> set updates then db
                             else AList.update n [] (AList.delete n db)) names db) name = Some []"
  using assms(2)
proof (induction names arbitrary: db)
  case Nil
  then show ?case by simp
next
  case (Cons n names)
  let ?db = "if map_of db n \<noteq> None \<and> n \<notin> set updates then db
             else AList.update n [] (AList.delete n db)"
  have "map_of ?db name = Some []"
  proof (cases "n = name")
    case True
    with assms(1) show ?thesis by (simp add: update_conv')
  next
    case False
    with Cons.prems show ?thesis by (simp add: update_conv' delete_conv')
  qed
  from Cons.IH[OF this] show ?case by simp
qed

lemma recreate_empties:
  assumes "name \<in> set updates" and "name \<in> set names"
  shows "map_of (fold (\<lambda>n db. if map_of db n \<noteq> None \<and> n \<notin> set updates then db
                             else AList.update n [] (AList.delete n db)) names db) name = Some []"
  using assms(2)
proof (induction names arbitrary: db)
  case Nil
  then show ?case by simp
next
  case (Cons n names)
  let ?db = "if map_of db n \<noteq> None \<and> n \<notin> set updates then db
             else AList.update n [] (AList.delete n db)"
  show ?case
  proof (cases "n = name")
    case True
    with assms(1) have "map_of ?db name = Some []" by (simp add: update_conv')
    from recreate_keeps_empty[OF assms(1) this] show ?thesis by simp
  next
    case False
    with Cons.prems have "name \<in> set names" by simp
    from Cons.IH[OF this] show ?thesis by simp
  qed
qed

lemma handleObjectStoreUpdates_empties:
  assumes "name \<in> set (mutationsUpdate st)" and "name \<in> fst ` set (storageMap st)"
  shows "map_of (database (handleObjectStoreUpdates st)) name = Some []"
proof -
  from assms(1) have ne: "mutationsUpdate st \<noteq> []" by auto
  from assms(2) have "name \<in> set (map fst (storageMap st))" by simp
  from recreate_empties[OF assms(1) this] ne show ?thesis
    by (simp add: handleObjectStoreUpdates_def)
qed

text \<open>Writing a single item into an empty store leaves exactly one row, when the write
  succeeds.\<close>

lemma addRelationsToContent_length:
  "length (addRelationsToContent om lm content links) = length content"
  by (simp add: addRelationsToContent_def split: option.splits)

lemma createQueueObservable_single:
  assumes "createQueueObservable eng om lm name [item] [] = (Emits queueMap, rows)"
  shows "length rows = 1"
proof -
  from addRelationsToContent_length[of om lm "[item]" "map_of lm name"]
  obtain x where x: "addRelationsToContent om lm [item] (map_of lm name) = [x]"
    by (cases "addRelationsToContent om lm [item] (map_of lm name)") auto
  show ?thesis
  proof (cases "valid_key (js_get x idKey)")
    case False
    with assms x show ?thesis by (simp add: createQueueObservable_def)
  next
    case True
    show ?thesis
    proof (cases "eng name [] x")
      case None
      with assms x True show ?thesis
        by (auto simp: createQueueObservable_def Let_def)
    next
      case (Some message)
      with assms x True show ?thesis
        by (simp add: createQueueObservable_def Let_def)
    qed
  qed
qed

text \<open>What holds of the queue map before parsing and is kept by every assignment of a
  store's queue holds after parsing.\<close>

lemma foldE_invariant:
  assumes "foldE f xs q = Inr q'" and "P q"
      and "\<And>x r r'. x \<in> set xs \<Longrightarrow> P r \<Longrightarrow> f x r = Inr r' \<Longrightarrow> P r'"
  shows "P q'"
  using assms
proof (induction xs arbitrary: q)
  case Nil
  then show ?case by simp
next
  case (Cons a xs)
  from Cons.prems(1) obtain q1 where a: "f a q = Inr q1" and rest: "foldE f xs q1 = Inr q'"
    by (cases "f a q") auto
  have "P q1" using Cons.prems(3)[of a q q1] Cons.prems(2) a by simp
  show ?case
  proof (rule Cons.IH[OF rest \<open>P q1\<close>])
    fix x r r' assume "x \<in> set xs" "P r" "f x r = Inr r'"
    then show "P r'" using Cons.prems(3)[of x r r'] by simp
  qed
qed

lemma parse_invariant:
  assumes step: "\<And>om name current parsed q q'.
      Pinv om q \<Longrightarrow> concatenateQueue om name current parsed q = Inr q' \<Longrightarrow> Pinv om q'"
  shows "Pinv om q0 \<Longrightarrow> parseContentForLinking om lm name content q0 = Inr q \<Longrightarrow> Pinv om q"
    and "Pinv om q0 \<Longrightarrow> extractLinkedContent om lm c links q0 = Inr q \<Longrightarrow> Pinv om q"
proof (induction om lm name content q0 and om lm c links q0 arbitrary: q and q
       rule: parseContentForLinking_extractLinkedContent.induct)
  case (1 om lm name content linkedItems)
  let ?inner = "case map_of lm name of
                  None \<Rightarrow> Inr linkedItems
                | Some linkedToMap \<Rightarrow>
                    foldE (\<lambda>cloneMe q. extractLinkedContent om lm cloneMe linkedToMap q)
                      (asArray content) linkedItems"
  from "1.prems"(2) obtain q1 where inner: "?inner = Inr q1"
    and conc: "concatenateQueue om name
            (case map_of linkedItems name of Some queued \<Rightarrow> queued | None \<Rightarrow> [])
            (asArray content) q1 = Inr q"
    by (cases ?inner) (simp_all del: extractLinkedContent.simps)
  have "Pinv om q1"
  proof (cases "map_of lm name")
    case None
    with inner "1.prems"(1) show ?thesis by simp
  next
    case (Some linkedToMap)
    with inner have f: "foldE (\<lambda>cloneMe q. extractLinkedContent om lm cloneMe linkedToMap q)
                      (asArray content) linkedItems = Inr q1"
      by (simp del: extractLinkedContent.simps)
    show ?thesis
    proof (rule foldE_invariant[where P="Pinv om", OF f "1.prems"(1)])
      fix x r r'
      assume "x \<in> set (asArray content)" "Pinv om r"
        "extractLinkedContent om lm x linkedToMap r = Inr r'"
      then show "Pinv om r'" using "1.IH"[OF Some] by blast
    qed
  qed
  from step[OF this conc] show ?case .
next
  case (2 om lm content linkedToMap linkedItems)
  let ?items = "\<lambda>link q.
     foldE (\<lambda>item q'.
              case linkable om (snd link) item of
                Inl e \<Rightarrow> Inl e
              | Inr None \<Rightarrow> Inr q'
              | Inr (Some linkedStore) \<Rightarrow> parseContentForLinking om lm linkedStore item q')
       (asArray (js_get content (fst link))) q"
  let ?body = "\<lambda>link q.
     if nullish content then Inl TypeError
     else if \<not> has_own content (fst link) \<or> \<not> typeof_object (js_get content (fst link))
     then Inr q else ?items link q"
  from "2.prems"(2) have f: "foldE ?body linkedToMap linkedItems = Inr q"
    by (simp del: parseContentForLinking.simps)
  show ?case
  proof (rule foldE_invariant[where P="Pinv om", OF f "2.prems"(1)])
    fix x r r'
    assume x: "x \<in> set linkedToMap" and r: "Pinv om r" and b: "?body x r = Inr r'"
    show "Pinv om r'"
    proof (cases "nullish content")
      case True
      with b show ?thesis by simp
    next
      case False
      note nn = this
      show ?thesis
      proof (cases "\<not> has_own content (fst x) \<or> \<not> typeof_object (js_get content (fst x))")
        case True
        with b nn r show ?thesis by simp
      next
        case False
        with b nn have g: "?items x r = Inr r'" by (simp del: parseContentForLinking.simps)
        show ?thesis
        proof (rule foldE_invariant[where P="Pinv om", OF g r])
          fix xa ra ra'
          assume xa: "xa \<in> set (asArray (js_get content (fst x)))" and ra: "Pinv om ra"
            and s: "(case linkable om (snd x) xa of
                       Inl e \<Rightarrow> Inl e
                     | Inr None \<Rightarrow> Inr ra
                     | Inr (Some linkedStore) \<Rightarrow>
                         parseContentForLinking om lm linkedStore xa ra) = Inr ra'"
          show "Pinv om ra'"
          proof (cases "linkable om (snd x) xa")
            case (Inl e)
            with s show ?thesis by simp
          next
            case (Inr b)
            show ?thesis
            proof (cases b)
              case None
              with Inr s ra show ?thesis by simp
            next
              case (Some linkedStore)
              with Inr s have "parseContentForLinking om lm linkedStore xa ra = Inr ra'"
                by (simp del: parseContentForLinking.simps)
              from "2.IH"[OF x nn False xa Inr Some ra this] show ?thesis .
            qed
          qed
        qed
      qed
    qed
  qed
qed

lemma set_update_subset: "set (AList.update k v al) \<subseteq> insert (k, v) (set al)"
  by (induction al) auto

lemma set_delete_subset: "set (AList.delete k al) \<subseteq> set al"
  by (induction al) auto

lemma same_value_zero_sym: "same_value_zero a b \<Longrightarrow> same_value_zero b a"
  by (auto simp: same_value_zero_def)

text \<open>The filter keeps no two items with the same primary-key value.\<close>

lemma dedupe_kept:
  "dedupe pk idSet items = Inr kept \<Longrightarrow>
     sorted_wrt (\<lambda>a b. \<not> same_value_zero (js_get a pk) (js_get b pk)) kept
     \<and> (\<forall>y \<in> set kept. \<forall>s \<in> set idSet. \<not> same_value_zero (js_get y pk) s)"
proof (induction items arbitrary: idSet kept)
  case Nil
  then show ?case by simp
next
  case (Cons x rest)
  from Cons.prems have nn: "\<not> nullish x" by (auto split: if_splits)
  show ?case
  proof (cases "list_ex (same_value_zero (js_get x pk)) idSet")
    case True
    with Cons.prems nn have "dedupe pk idSet rest = Inr kept" by simp
    from Cons.IH[OF this] show ?thesis .
  next
    case False
    with Cons.prems nn obtain kept' where k: "dedupe pk (idSet @ [js_get x pk]) rest = Inr kept'"
      and kept: "kept = x # kept'"
      by (cases "dedupe pk (idSet @ [js_get x pk]) rest") auto
    from Cons.IH[OF k] have s: "sorted_wrt (\<lambda>a b. \<not> same_value_zero (js_get a pk) (js_get b pk)) kept'"
      and o: "\<forall>y \<in> set kept'. \<forall>s \<in> set (idSet @ [js_get x pk]). \<not> same_value_zero (js_get y pk) s"
      by simp_all
    from o have "\<forall>y \<in> set kept'. \<not> same_value_zero (js_get x pk) (js_get y pk)"
      by (auto dest: same_value_zero_sym)
    moreover from False have "\<forall>s \<in> set idSet. \<not> same_value_zero (js_get x pk) s"
      by (simp add: list_ex_iff)
    ultimately show ?thesis using s o kept by auto
  qed
qed

lemma concatenateQueue_result:
  assumes "concatenateQueue om name current parsed q = Inr q'"
  obtains concatenated where "q' = AList.update name concatenated q"
    and "concatenated = [] \<or> (\<exists>options. map_of om name = Some options
            \<and> dedupe (primaryKey options) [] (current @ parsed) = Inr concatenated)"
proof (cases "current @ parsed = []")
  case True
  with assms have "q' = AList.update name [] q" by (simp add: concatenateQueue_def)
  then show ?thesis using that by blast
next
  case False
  show ?thesis
  proof (cases "map_of om name")
    case None
    with False assms show ?thesis by (auto simp: concatenateQueue_def split: if_splits)
  next
    case (Some options)
    with False assms obtain c where "dedupe (primaryKey options) [] (current @ parsed) = Inr c"
      and "q' = AList.update name c q"
      by (cases "dedupe (primaryKey options) [] (current @ parsed)")
         (auto simp: concatenateQueue_def split: if_splits)
    with Some show ?thesis using that by blast
  qed
qed

lemma parse_distinct:
  assumes "parseContentForLinking om lm name content [] = Inr q"
  shows "distinct (map fst q)"
proof -
  have step: "\<And>om name current parsed (q :: QueueMap) q'.
      distinct (map fst q) \<Longrightarrow> concatenateQueue om name current parsed q = Inr q'
      \<Longrightarrow> distinct (map fst q')"
    by (auto elim!: concatenateQueue_result simp: distinct_update)
  have init: "distinct (map fst ([] :: QueueMap))" by simp
  from parse_invariant(1)[where Pinv="\<lambda>om q. distinct (map fst q)", OF step init assms]
  show ?thesis .
qed

lemma parse_deduped:
  assumes "parseContentForLinking om lm name content [] = Inr q"
      and "(store, items) \<in> set q" and "map_of om store = Some options"
  shows "sorted_wrt (\<lambda>a b. \<not> same_value_zero (js_get a (primaryKey options))
                                   (js_get b (primaryKey options))) items"
proof -
  define Pinv where "Pinv = (\<lambda>om (q :: QueueMap). \<forall>entry \<in> set q. \<forall>options.
      map_of om (fst entry) = Some options \<longrightarrow>
      sorted_wrt (\<lambda>a b. \<not> same_value_zero (js_get a (primaryKey options))
                                   (js_get b (primaryKey options))) (snd entry))"
  have step: "Pinv om q'" if inv: "Pinv om q"
    and c: "concatenateQueue om name current parsed q = Inr q'"
    for om name current parsed q q'
  proof -
    from c obtain concatenated where q': "q' = AList.update name concatenated q"
      and d: "concatenated = [] \<or> (\<exists>options. map_of om name = Some options
            \<and> dedupe (primaryKey options) [] (current @ parsed) = Inr concatenated)"
      by (rule concatenateQueue_result)
    show ?thesis
      unfolding Pinv_def
    proof (intro ballI allI impI)
      fix entry options
      assume mem: "entry \<in> set q'" and o: "map_of om (fst entry) = Some options"
      from mem q' have "entry \<in> set q \<or> entry = (name, concatenated)"
        using set_update_subset[of name concatenated q] by auto
      then show "sorted_wrt (\<lambda>a b. \<not> same_value_zero (js_get a (primaryKey options))
                                   (js_get b (primaryKey options))) (snd entry)"
      proof
        assume "entry \<in> set q"
        with inv o show ?thesis unfolding Pinv_def by blast
      next
        assume "entry = (name, concatenated)"
        with d o show ?thesis by (auto dest: dedupe_kept)
      qed
    qed
  qed
  have init: "Pinv om []" by (simp add: Pinv_def)
  have "Pinv om q"
    by (rule parse_invariant(1)[where Pinv=Pinv, OF step init assms(1)])
  with assms(2,3) show ?thesis unfolding Pinv_def by force
qed

lemma concatenateQueue_single:
  assumes "concatenateQueue om name [] [e] q1 = Inr q"
  shows "map_of q name = Some [e]"
proof (cases "map_of om name")
  case None
  with assms show ?thesis by (simp add: concatenateQueue_def)
next
  case (Some options)
  show ?thesis
  proof (cases "nullish e")
    case True
    with Some assms show ?thesis by (simp add: concatenateQueue_def)
  next
    case False
    with Some assms have "q = AList.update name [e] q1"
      by (simp add: concatenateQueue_def)
    then show ?thesis by (simp add: update_conv')
  qed
qed

lemma parse_own_queue:
  assumes "parseContentForLinking om lm name (JArr [e]) [] = Inr q"
  shows "map_of q name = Some [e]"
proof (cases "map_of lm name")
  case None
  with assms have "concatenateQueue om name [] [e] [] = Inr q" by simp
  then show ?thesis by (rule concatenateQueue_single)
next
  case (Some linkedToMap)
  let ?inner = "foldE (\<lambda>cloneMe q. extractLinkedContent om lm cloneMe linkedToMap q) [e] []"
  from assms Some obtain q1 where "concatenateQueue om name [] [e] q1 = Inr q"
    by (cases ?inner) (simp_all del: extractLinkedContent.simps)
  then show ?thesis by (rule concatenateQueue_single)
qed

lemma update_keys_image: "fst ` set (AList.update k v al) = insert k (fst ` set al)"
  by (induction al) auto

lemma registerStores_registers:
  "registerStores om lm q sm = (None, sm') \<Longrightarrow> fst ` set sm \<union> fst ` set q \<subseteq> fst ` set sm'"
proof (induction om lm q sm rule: registerStores.induct)
  case (1 om lm sm)
  then show ?case by simp
next
  case (2 om lm name content rest sm)
  show ?case
  proof (cases "createKeyMap om lm content (map_of om name)")
    case (Inl e)
    with "2.prems" show ?thesis by simp
  next
    case (Inr keyMap)
    let ?sm = "AList.update name
               (fold (\<lambda>entry combinedMap. AList.update (fst entry) (snd entry) combinedMap) keyMap
                  (case map_of sm name of Some storedMap \<Rightarrow> storedMap | None \<Rightarrow> []))
               sm"
    from Inr "2.prems" have "registerStores om lm rest ?sm = (None, sm')" by simp
    from "2.IH"[OF Inr this] show ?thesis by (auto simp: update_keys_image)
  qed
qed

text \<open>The batch writes every store of the queue once, into the rows the store holds when its
  turn comes; the other stores are left alone.\<close>

lemma batch_other_store:
  "name \<notin> fst ` set entries \<Longrightarrow>
     map_of (snd (createBatchInsertObservable eng om lm entries added db)) name = map_of db name"
proof (induction eng om lm entries added db rule: createBatchInsertObservable.induct)
  case (1 eng om lm addedMap db)
  then show ?case by simp
next
  case (2 eng om lm store content entries addedMap db)
  from "2.prems" have ne: "store \<noteq> name" and rest: "name \<notin> fst ` set entries" by auto
  show ?case
  proof (cases "map_of om store")
    case None
    then show ?thesis by simp
  next
    case (Some options)
    show ?thesis
    proof (cases "addIdKeyToContent content (primaryKey options)")
      case (Inl e)
      with Some show ?thesis by simp
    next
      case (Inr items)
      let ?old = "case map_of db store of Some rows \<Rightarrow> rows | None \<Rightarrow> []"
      obtain out rows where q: "createQueueObservable eng om lm store items ?old = (out, rows)"
        by (cases "createQueueObservable eng om lm store items ?old") auto
      show ?thesis
      proof (cases out)
        case (Emits queueMap)
        from "2.IH"[OF Some Inr q[symmetric] Emits rest] Some Inr q Emits ne
        show ?thesis by (simp add: update_conv')
      next
        case (Fails e)
        with Some Inr q ne show ?thesis by (simp add: update_conv')
      next
        case Silent
        with Some Inr q ne show ?thesis by (simp add: update_conv')
      qed
    qed
  qed
qed

lemma batch_store:
  assumes "createBatchInsertObservable eng om lm entries added db = (Emits result, db')"
      and "distinct (map fst entries)" and "(name, content) \<in> set entries"
  shows "\<exists>options items queueMap rows.
           map_of om name = Some options
           \<and> addIdKeyToContent content (primaryKey options) = Inr items
           \<and> createQueueObservable eng om lm name items
                 (case map_of db name of Some rows \<Rightarrow> rows | None \<Rightarrow> []) = (Emits queueMap, rows)
           \<and> map_of db' name = Some rows"
  using assms
proof (induction eng om lm entries added db rule: createBatchInsertObservable.induct)
  case (1 eng om lm addedMap db)
  then show ?case by simp
next
  case (2 eng om lm store stored entries addedMap db)
  from "2.prems"(1) obtain options where o: "map_of om store = Some options"
    by (cases "map_of om store") auto
  from "2.prems"(1) o obtain items where i: "addIdKeyToContent stored (primaryKey options) = Inr items"
    by (cases "addIdKeyToContent stored (primaryKey options)") auto
  let ?old = "case map_of db store of Some rows \<Rightarrow> rows | None \<Rightarrow> []"
  obtain out rows where q: "createQueueObservable eng om lm store items ?old = (out, rows)"
    by (cases "createQueueObservable eng om lm store items ?old") auto
  from "2.prems"(1) o i q obtain queueMap where e: "out = Emits queueMap"
    by (cases out) auto
  from "2.prems"(1) o i q e
  have rest: "createBatchInsertObservable eng om lm entries (AList.update store queueMap addedMap)
                (AList.update store rows db) = (Emits result, db')"
    by simp
  show ?case
  proof (cases "store = name")
    case True
    with "2.prems"(2,3) have "stored = content" and "name \<notin> fst ` set entries"
      by (auto simp: image_iff)
    from batch_other_store[OF this(2), of eng om lm "AList.update store queueMap addedMap"
        "AList.update store rows db"] rest True
    have "map_of db' name = Some rows" by (simp add: update_conv')
    with o i q e True \<open>stored = content\<close> show ?thesis by auto
  next
    case False
    with "2.prems"(2,3) have d: "distinct (map fst entries)" and m: "(name, content) \<in> set entries"
      by auto
    from "2.IH"[OF o i q[symmetric] e rest d m] False show ?thesis
      by (simp add: update_conv')
  qed
qed

text \<open>Rows are stored under their \<^verbatim>\<open>__pkey__\<close>, one row per key: every write keeps it so.\<close>

lemma update_keyed:
  assumes "distinct (map fst rows) \<and> (\<forall>row \<in> set rows. js_get (snd row) idKey = fst row)"
  shows "distinct (map fst (AList.update (js_get item idKey) item rows))
         \<and> (\<forall>row \<in> set (AList.update (js_get item idKey) item rows). js_get (snd row) idKey = fst row)"
proof
  from assms show "distinct (map fst (AList.update (js_get item idKey) item rows))"
    by (simp add: distinct_update)
  from assms show "\<forall>row \<in> set (AList.update (js_get item idKey) item rows).
      js_get (snd row) idKey = fst row"
    using set_update_subset[of "js_get item idKey" item rows] by auto
qed

lemma settle_keyed:
  assumes "distinct (map fst rows) \<and> (\<forall>row \<in> set rows. js_get (snd row) idKey = fst row)"
  shows "distinct (map fst (fst (settle eng name items (rows, run, ok))))
         \<and> (\<forall>row \<in> set (fst (settle eng name items (rows, run, ok))).
               js_get (snd row) idKey = fst row)"
  using assms
proof (induction items arbitrary: rows run ok)
  case Nil
  then show ?case by simp
next
  case (Cons item rest)
  show ?case
  proof (cases "eng name rows item")
    case None
    from Cons.IH[OF update_keyed[OF Cons.prems, of item]] None show ?thesis by simp
  next
    case (Some message)
    from Cons.IH[OF Cons.prems] Some show ?thesis by simp
  qed
qed

lemma createQueueObservable_keyed:
  assumes "distinct (map fst rows) \<and> (\<forall>row \<in> set rows. js_get (snd row) idKey = fst row)"
  shows "distinct (map fst (snd (createQueueObservable eng om lm name content rows)))
         \<and> (\<forall>row \<in> set (snd (createQueueObservable eng om lm name content rows)).
               js_get (snd row) idKey = fst row)"
proof -
  obtain sync run where ip: "issue_puts name (addRelationsToContent om lm content (map_of lm name))
             \<lparr>errors = [], updated = [], requests = []\<rparr> = (sync, run)"
    by (cases "issue_puts name (addRelationsToContent om lm content (map_of lm name))
             \<lparr>errors = [], updated = [], requests = []\<rparr>") auto
  obtain rows' run' ok where st: "settle eng name (requests run) (rows, run, False) = (rows', run', ok)"
    by (cases "settle eng name (requests run) (rows, run, False)") auto
  from ip st have "snd (createQueueObservable eng om lm name content rows) = rows'"
    by (simp add: createQueueObservable_def)
  moreover from st have "rows' = fst (settle eng name (requests run) (rows, run, False))" by simp
  ultimately show ?thesis using settle_keyed[OF assms, of eng name "requests run" run False]
    by simp
qed

lemma stored_rows_keyed:
  assumes "\<forall>store \<in> set db. distinct (map fst (snd store))
             \<and> (\<forall>row \<in> set (snd store). js_get (snd row) idKey = fst row)"
  shows "distinct (map fst (case map_of db name of Some rows \<Rightarrow> rows | None \<Rightarrow> []))
         \<and> (\<forall>row \<in> set (case map_of db name of Some rows \<Rightarrow> rows | None \<Rightarrow> []).
               js_get (snd row) idKey = fst row)"
proof (cases "map_of db name")
  case None
  then show ?thesis by simp
next
  case (Some rows)
  then have "(name, rows) \<in> set db" by (rule map_of_SomeD)
  with assms Some show ?thesis by fastforce
qed

lemma update_store_keyed:
  assumes "\<forall>store \<in> set db. distinct (map fst (snd store))
             \<and> (\<forall>row \<in> set (snd store). js_get (snd row) idKey = fst row)"
      and "distinct (map fst rows) \<and> (\<forall>row \<in> set rows. js_get (snd row) idKey = fst row)"
  shows "\<forall>store \<in> set (AList.update name rows db). distinct (map fst (snd store))
             \<and> (\<forall>row \<in> set (snd store). js_get (snd row) idKey = fst row)"
proof
  fix store assume "store \<in> set (AList.update name rows db)"
  then have "store = (name, rows) \<or> store \<in> set db"
    using set_update_subset[of name rows db] by auto
  with assms show "distinct (map fst (snd store))
             \<and> (\<forall>row \<in> set (snd store). js_get (snd row) idKey = fst row)"
    by auto
qed

lemma batch_keyed:
  assumes "\<forall>store \<in> set db. distinct (map fst (snd store))
             \<and> (\<forall>row \<in> set (snd store). js_get (snd row) idKey = fst row)"
  shows "\<forall>store \<in> set (snd (createBatchInsertObservable eng om lm entries added db)).
           distinct (map fst (snd store))
           \<and> (\<forall>row \<in> set (snd store). js_get (snd row) idKey = fst row)"
  using assms
proof (induction eng om lm entries added db rule: createBatchInsertObservable.induct)
  case (1 eng om lm addedMap db)
  then show ?case by simp
next
  case (2 eng om lm name content entries addedMap db)
  show ?case
  proof (cases "map_of om name")
    case None
    with "2.prems" show ?thesis by simp
  next
    case (Some options)
    show ?thesis
    proof (cases "addIdKeyToContent content (primaryKey options)")
      case (Inl e)
      with Some "2.prems" show ?thesis by simp
    next
      case (Inr items)
      let ?old = "case map_of db name of Some rows \<Rightarrow> rows | None \<Rightarrow> []"
      obtain out rows where q: "createQueueObservable eng om lm name items ?old = (out, rows)"
        by (cases "createQueueObservable eng om lm name items ?old") auto
      from createQueueObservable_keyed[OF stored_rows_keyed[OF "2.prems", of name],
          of eng om lm name items] q
      have "distinct (map fst rows) \<and> (\<forall>row \<in> set rows. js_get (snd row) idKey = fst row)"
        by simp
      from update_store_keyed[OF "2.prems" this, of name]
      have upd: "\<forall>store \<in> set (AList.update name rows db). distinct (map fst (snd store))
             \<and> (\<forall>row \<in> set (snd store). js_get (snd row) idKey = fst row)" .
      show ?thesis
      proof (cases out)
        case (Emits queueMap)
        from "2.IH"[OF Some Inr q[symmetric] Emits upd] Some Inr q Emits show ?thesis by simp
      next
        case (Fails e)
        with Some Inr q upd show ?thesis by simp
      next
        case Silent
        with Some Inr q upd show ?thesis by simp
      qed
    qed
  qed
qed

lemma recreate_keyed:
  assumes "\<forall>store \<in> set db. distinct (map fst (snd store))
             \<and> (\<forall>row \<in> set (snd store). js_get (snd row) idKey = fst row)"
  shows "\<forall>store \<in> set (fold (\<lambda>n db. if map_of db n \<noteq> None \<and> n \<notin> set updates then db
                                      else AList.update n [] (AList.delete n db)) names db).
           distinct (map fst (snd store))
           \<and> (\<forall>row \<in> set (snd store). js_get (snd row) idKey = fst row)"
  using assms
proof (induction names arbitrary: db)
  case Nil
  then show ?case by simp
next
  case (Cons n names)
  have del: "\<forall>store \<in> set (AList.delete n db). distinct (map fst (snd store))
             \<and> (\<forall>row \<in> set (snd store). js_get (snd row) idKey = fst row)"
    using Cons.prems set_delete_subset[of n db] by blast
  have "\<forall>store \<in> set (AList.update n [] (AList.delete n db)). distinct (map fst (snd store))
             \<and> (\<forall>row \<in> set (snd store). js_get (snd row) idKey = fst row)"
    by (rule update_store_keyed[OF del]) simp
  with Cons.prems have "\<forall>store \<in> set (if map_of db n \<noteq> None \<and> n \<notin> set updates then db
                                      else AList.update n [] (AList.delete n db)).
           distinct (map fst (snd store))
           \<and> (\<forall>row \<in> set (snd store). js_get (snd row) idKey = fst row)"
    by simp
  from Cons.IH[OF this] show ?case by simp
qed

lemma database_updatePersistenceSettings [simp]:
  "database (updatePersistenceSettings options st) = database st"
  by (simp add: updatePersistenceSettings_def split: prod.splits)

lemma database_updateStorageSettings [simp]:
  "database (snd (updateStorageSettings q st)) = database st"
  by (simp add: updateStorageSettings_def split: prod.splits)

lemma handleObjectStoreUpdates_keyed:
  assumes "\<forall>store \<in> set (database st). distinct (map fst (snd store))
             \<and> (\<forall>row \<in> set (snd store). js_get (snd row) idKey = fst row)"
  shows "\<forall>store \<in> set (database (handleObjectStoreUpdates st)). distinct (map fst (snd store))
             \<and> (\<forall>row \<in> set (snd store). js_get (snd row) idKey = fst row)"
proof (cases "mutationsUpdate st = []")
  case True
  with assms show ?thesis by (simp add: handleObjectStoreUpdates_def)
next
  case False
  with recreate_keyed[OF assms, of "mutationsUpdate st" "map fst (storageMap st)"]
  show ?thesis by (simp add: handleObjectStoreUpdates_def)
qed

lemma insertLinkedItemsInStores_keyed:
  assumes "\<forall>store \<in> set db. distinct (map fst (snd store))
             \<and> (\<forall>row \<in> set (snd store). js_get (snd row) idKey = fst row)"
  shows "\<forall>store \<in> set (snd (insertLinkedItemsInStores eng om lm db q)).
           distinct (map fst (snd store))
           \<and> (\<forall>row \<in> set (snd store). js_get (snd row) idKey = fst row)"
  using assms batch_keyed[OF assms, of eng om lm q "[]"]
  by (simp add: insertLinkedItemsInStores_def)

lemma mapE_length: "mapE f xs = Inr ys \<Longrightarrow> length ys = length xs"
proof (induction xs arbitrary: ys)
  case Nil
  then show ?case by simp
next
  case (Cons a xs)
  from Cons.prems obtain y where y: "f a = Inr y" by (cases "f a") auto
  with Cons.prems obtain ys' where ys': "mapE f xs = Inr ys'" and "ys = y # ys'"
    by (cases "mapE f xs") auto
  with Cons.IH[OF ys'] show ?case by simp
qed

lemma mutationsUpdate_updatePersistenceSettings:
  "storeName options \<in> set (mutationsUpdate (updatePersistenceSettings options st))"
  by (simp add: updatePersistenceSettings_def split: prod.splits)

lemma updateStorageSettings_fields:
  assumes "updateStorageSettings q st = (failure, st')"
  shows "mutationsUpdate st' = mutationsUpdate st" and "optionsMap st' = optionsMap st"
    and "linkMap st' = linkMap st" and "database st' = database st"
    and "registerStores (optionsMap st) (linkMap st) q (storageMap st) = (failure, storageMap st')"
  using assms by (auto simp: updateStorageSettings_def split: prod.splits)

lemma handleObjectStoreUpdates_maps [simp]:
  "optionsMap (handleObjectStoreUpdates st) = optionsMap st"
  "linkMap (handleObjectStoreUpdates st) = linkMap st"
  by (simp_all add: handleObjectStoreUpdates_def)

lemma initializeDatabase_cases:
  assumes "initializeDatabase st = (failure, st2)"
  shows "(failure \<noteq> None \<and> database st2 = database st)
       \<or> (failure = None \<and> st2 = (handleObjectStoreUpdates st)\<lparr>indexedDb := Opened\<rparr>)"
  using assms by (auto simp: initializeDatabase_def split: if_splits)

text \<open>The steps of a call of \<^verbatim>\<open>persist\<close> that stores its content and succeeds.\<close>

lemma persist_Emits:
  assumes "persist eng content options st = (Emits results, st')"
      and "storeContent options \<noteq> Some False"
  obtains q st1 added db where
    "parseContentForLinking (optionsMap (updatePersistenceSettings options st))
       (linkMap (updatePersistenceSettings options st)) (storeName options)
       (JArr (asArray content)) [] = Inr q"
    and "updateStorageSettings q (updatePersistenceSettings options st) = (None, st1)"
    and "insertLinkedItemsInStores eng (optionsMap st1) (linkMap st1)
           (database (handleObjectStoreUpdates st1)) q = (Emits added, db)"
    and "database st' = db"
proof -
  let ?st0 = "updatePersistenceSettings options st"
  let ?parse = "parseContentForLinking (optionsMap ?st0) (linkMap ?st0) (storeName options)
       (JArr (asArray content)) []"
  from assms(1) obtain q where q: "?parse = Inr q"
    by (cases ?parse) (simp_all add: persist_def Let_def del: parseContentForLinking.simps)
  obtain failure st1 where u: "updateStorageSettings q ?st0 = (failure, st1)"
    by (cases "updateStorageSettings q ?st0") auto
  from assms(1) q u have f: "failure = None"
    by (cases failure) (simp_all add: persist_def Let_def del: parseContentForLinking.simps)
  obtain failure2 st2 where init: "initializeDatabase st1 = (failure2, st2)"
    by (cases "initializeDatabase st1") auto
  from assms(1) q u f init have f2: "failure2 = None"
    by (cases failure2) (simp_all add: persist_def Let_def del: parseContentForLinking.simps)
  with initializeDatabase_cases[OF init]
  have st2: "st2 = (handleObjectStoreUpdates st1)\<lparr>indexedDb := Opened\<rparr>" by simp
  obtain out db where i: "insertLinkedItemsInStores eng (optionsMap st2) (linkMap st2)
           (database st2) q = (out, db)"
    by (cases "insertLinkedItemsInStores eng (optionsMap st2) (linkMap st2) (database st2) q")
       auto
  from assms q u f init f2 i obtain added where "out = Emits added" and "database st' = db"
    by (cases out) (auto simp: persist_def Let_def simp del: parseContentForLinking.simps)
  with q u f i st2 show ?thesis using that by simp
qed

lemma persist_single_row:
  assumes "persist eng e options st = (Emits results, st')"
      and "storeContent options \<noteq> Some False" and "\<not> is_array e"
  shows "length (rowsOf st' (storeName options)) = 1"
proof -
  let ?st0 = "updatePersistenceSettings options st"
  let ?C = "storeName options"
  from assms(3) have arr: "asArray e = [e]" by (cases e) auto
  from assms(1,2) obtain q st1 added db where
    q: "parseContentForLinking (optionsMap ?st0) (linkMap ?st0) ?C (JArr (asArray e)) [] = Inr q"
    and u: "updateStorageSettings q ?st0 = (None, st1)"
    and i: "insertLinkedItemsInStores eng (optionsMap st1) (linkMap st1)
           (database (handleObjectStoreUpdates st1)) q = (Emits added, db)"
    and d: "database st' = db"
    by (rule persist_Emits)
  from q arr have own: "map_of q ?C = Some [e]" by (simp only: parse_own_queue)
  then have mem: "(?C, [e]) \<in> set q" by (rule map_of_SomeD)
  from q have dist: "distinct (map fst q)" by (rule parse_distinct)
  from updateStorageSettings_fields[OF u]
  have mu: "mutationsUpdate st1 = mutationsUpdate ?st0"
    and reg: "registerStores (optionsMap ?st0) (linkMap ?st0) q (storageMap ?st0)
                = (None, storageMap st1)"
    by simp_all
  from mu have "?C \<in> set (mutationsUpdate st1)"
    by (simp add: mutationsUpdate_updatePersistenceSettings)
  moreover from registerStores_registers[OF reg] mem have "?C \<in> fst ` set (storageMap st1)"
    by force
  ultimately have empty: "map_of (database (handleObjectStoreUpdates st1)) ?C = Some []"
    by (rule handleObjectStoreUpdates_empties)
  from i have b: "createBatchInsertObservable eng (optionsMap st1) (linkMap st1) q []
                    (database (handleObjectStoreUpdates st1)) = (Emits added, db)"
    by (auto simp: insertLinkedItemsInStores_def split: if_splits)
  from batch_store[OF b dist mem] empty obtain linked items queueMap rows where
    a: "addIdKeyToContent [e] (primaryKey linked) = Inr items"
    and c: "createQueueObservable eng (optionsMap st1) (linkMap st1) ?C items [] = (Emits queueMap, rows)"
    and r: "map_of db ?C = Some rows"
    by auto
  from a have "length items = length [e]"
    unfolding addIdKeyToContent_def by (rule mapE_length)
  then obtain item where "items = [item]" by (cases items) auto
  with c have "length rows = 1" by (auto dest: createQueueObservable_single)
  with r d show ?thesis by (simp add: rowsOf_def)
qed

lemma persist_keyed:
  assumes "\<forall>store \<in> set (database st). distinct (map fst (snd store))
             \<and> (\<forall>row \<in> set (snd store). js_get (snd row) idKey = fst row)"
  shows "\<forall>store \<in> set (database (snd (persist eng content options st))).
           distinct (map fst (snd store))
           \<and> (\<forall>row \<in> set (snd store). js_get (snd row) idKey = fst row)"
proof -
  let ?st0 = "updatePersistenceSettings options st"
  let ?parse = "parseContentForLinking (optionsMap ?st0) (linkMap ?st0) (storeName options)
       (JArr (asArray content)) []"
  show ?thesis
  proof (cases ?parse)
    case (Inl e)
    with assms show ?thesis by (simp add: persist_def Let_def del: parseContentForLinking.simps)
  next
    case (Inr q)
    obtain failure st1 where u: "updateStorageSettings q ?st0 = (failure, st1)"
      by (cases "updateStorageSettings q ?st0") auto
    from updateStorageSettings_fields(4)[OF u] assms
    have k1: "\<forall>store \<in> set (database st1). distinct (map fst (snd store))
             \<and> (\<forall>row \<in> set (snd store). js_get (snd row) idKey = fst row)"
      by simp
    show ?thesis
    proof (cases failure)
      case (Some e)
      with Inr u k1 show ?thesis
        by (simp add: persist_def Let_def del: parseContentForLinking.simps)
    next
      case None
      obtain failure2 st2 where init: "initializeDatabase st1 = (failure2, st2)"
        by (cases "initializeDatabase st1") auto
      have k2: "\<forall>store \<in> set (database st2). distinct (map fst (snd store))
             \<and> (\<forall>row \<in> set (snd store). js_get (snd row) idKey = fst row)"
        using initializeDatabase_cases[OF init] k1 handleObjectStoreUpdates_keyed[OF k1]
        by auto
      show ?thesis
      proof (cases failure2)
        case (Some e)
        with Inr u None init k2 show ?thesis
          by (simp add: persist_def Let_def del: parseContentForLinking.simps)
      next
        case opened: None
        obtain out db where i: "insertLinkedItemsInStores eng (optionsMap st2) (linkMap st2)
             (database st2) q = (out, db)"
          by (cases "insertLinkedItemsInStores eng (optionsMap st2) (linkMap st2) (database st2) q")
             auto
        from insertLinkedItemsInStores_keyed[OF k2, of eng "optionsMap st2" "linkMap st2" q] i
        have k3: "\<forall>store \<in> set db. distinct (map fst (snd store))
               \<and> (\<forall>row \<in> set (snd store). js_get (snd row) idKey = fst row)"
          by simp
        show ?thesis
        proof (cases "storeContent options \<noteq> Some False")
          case True
          with Inr u None init opened i k3 show ?thesis
            by (cases out) (simp_all add: persist_def Let_def del: parseContentForLinking.simps)
        next
          case False
          with Inr u None init opened k2 show ?thesis
            by (simp add: persist_def Let_def del: parseContentForLinking.simps)
        qed
      qed
    qed
  qed
qed

lemma same_value_zero_string: "typeof_string a \<Longrightarrow> same_value_zero a b = (a = b)"
  by (cases a) (auto simp: same_value_zero_def)

lemma dedupe_covers:
  "dedupe pk seen items = Inr kept \<Longrightarrow> x \<in> set items \<Longrightarrow> typeof_string (js_get x pk) \<Longrightarrow>
     (\<exists>y \<in> set kept. js_get y pk = js_get x pk) \<or> js_get x pk \<in> set seen"
proof (induction items arbitrary: seen kept)
  case Nil
  then show ?case by simp
next
  case (Cons a rest)
  from Cons.prems(1) have nn: "\<not> nullish a" by (auto split: if_splits)
  show ?case
  proof (cases "list_ex (same_value_zero (js_get a pk)) seen")
    case True
    with Cons.prems(1) nn have d: "dedupe pk seen rest = Inr kept" by simp
    show ?thesis
    proof (cases "x = a")
      case xa: True
      from True obtain s where "s \<in> set seen" "same_value_zero (js_get a pk) s"
        by (auto simp: list_ex_iff)
      with xa Cons.prems(3) show ?thesis by (simp add: same_value_zero_string)
    next
      case False
      with Cons.prems(2) have "x \<in> set rest" by simp
      from Cons.IH[OF d this Cons.prems(3)] show ?thesis .
    qed
  next
    case False
    with Cons.prems(1) nn obtain kept' where k: "dedupe pk (seen @ [js_get a pk]) rest = Inr kept'"
      and kept: "kept = a # kept'"
      by (cases "dedupe pk (seen @ [js_get a pk]) rest") auto
    show ?thesis
    proof (cases "x = a")
      case True
      with kept show ?thesis by simp
    next
      case xa: False
      with Cons.prems(2) have "x \<in> set rest" by simp
      from Cons.IH[OF k this Cons.prems(3)] kept show ?thesis by auto
    qed
  qed
qed

lemma queueOf_update: "queueOf (AList.update name items q) store = (if store = name then items else queueOf q store)"
  by (simp add: queueOf_def update_conv')

lemma queuedI:
  "map_of om name = Some options \<Longrightarrow> y \<in> set (queueOf q name) \<Longrightarrow> js_get y (primaryKey options) = key
   \<Longrightarrow> queuedFor om q name key"
  by (auto simp: queuedFor_def list_ex_iff)

lemma queuedE:
  assumes "queuedFor om q name key"
  obtains options y where "map_of om name = Some options" and "y \<in> set (queueOf q name)"
    and "js_get y (primaryKey options) = key"
  using assms by (auto simp: queuedFor_def list_ex_iff split: option.splits)

text \<open>The assignment of a store's queue keeps what is queued for the other stores, and
  covers the items queued before and the parsed items.\<close>

lemma concatenateQueue_other:
  assumes "concatenateQueue om name current parsed q1 = Inr q" and "store \<noteq> name"
  shows "queueOf q store = queueOf q1 store"
  using assms by (auto elim!: concatenateQueue_result simp: queueOf_update)

lemma concatenateQueue_covers:
  assumes c: "concatenateQueue om name current parsed q1 = Inr q"
    and o: "map_of om name = Some options"
    and x: "x \<in> set (current @ parsed)"
    and s: "typeof_string (js_get x (primaryKey options))"
  shows "queuedFor om q name (js_get x (primaryKey options))"
proof -
  from c obtain concatenated where q: "q = AList.update name concatenated q1"
    and d: "concatenated = [] \<or> (\<exists>options. map_of om name = Some options
            \<and> dedupe (primaryKey options) [] (current @ parsed) = Inr concatenated)"
    by (rule concatenateQueue_result)
  from x have ne: "current @ parsed \<noteq> []" by auto
  with c o have "dedupe (primaryKey options) [] (current @ parsed) = Inr concatenated"
    using q d
    by (cases "dedupe (primaryKey options) [] (current @ parsed)")
       (auto simp: concatenateQueue_def update_conv' dest!: arg_cong[where f="\<lambda>m. map_of m name"])
  from dedupe_covers[OF this x s] obtain y where "y \<in> set concatenated"
    and "js_get y (primaryKey options) = js_get x (primaryKey options)" by auto
  with o q show ?thesis by (auto intro!: queuedI simp: queueOf_update)
qed


text \<open>What is queued for a store under a string key stays queued through every call: a call
  replaces the queue of its own store by the queue it read at its start followed by its
  content, and leaves the other queues to the calls it makes.\<close>

lemma parse_keeps_queued:
  assumes k: "typeof_string key"
  shows "parseContentForLinking om lm name content q0 = Inr q \<Longrightarrow> queuedFor om q0 store key
           \<Longrightarrow> queuedFor om q store key"
    and "extractLinkedContent om lm c links q0 = Inr q \<Longrightarrow> queuedFor om q0 store key
           \<Longrightarrow> queuedFor om q store key"
proof (induction om lm name content q0 and om lm c links q0 arbitrary: q and q
       rule: parseContentForLinking_extractLinkedContent.induct)
  case (1 om lm name content linkedItems)
  let ?inner = "case map_of lm name of
                  None \<Rightarrow> Inr linkedItems
                | Some linkedToMap \<Rightarrow>
                    foldE (\<lambda>cloneMe q. extractLinkedContent om lm cloneMe linkedToMap q)
                      (asArray content) linkedItems"
  from "1.prems"(1) obtain q1 where inner: "?inner = Inr q1"
    and conc: "concatenateQueue om name
            (case map_of linkedItems name of Some items \<Rightarrow> items | None \<Rightarrow> [])
            (asArray content) q1 = Inr q"
    by (cases ?inner) (simp_all del: extractLinkedContent.simps)
  have q1: "queuedFor om q1 store key"
  proof (cases "map_of lm name")
    case None
    with inner "1.prems"(2) show ?thesis by simp
  next
    case (Some linkedToMap)
    with inner have f: "foldE (\<lambda>cloneMe q. extractLinkedContent om lm cloneMe linkedToMap q)
                      (asArray content) linkedItems = Inr q1"
      by (simp del: extractLinkedContent.simps)
    show ?thesis
    proof (rule foldE_invariant[where P="\<lambda>r. queuedFor om r store key", OF f "1.prems"(2)])
      fix x r r'
      assume "x \<in> set (asArray content)" "queuedFor om r store key"
        "extractLinkedContent om lm x linkedToMap r = Inr r'"
      then show "queuedFor om r' store key" using "1.IH"[OF Some] by blast
    qed
  qed
  show ?case
  proof (cases "store = name")
    case False
    from concatenateQueue_other[OF conc False] q1 show ?thesis
      by (simp add: queuedFor_def split: option.splits)
  next
    case True
    from "1.prems"(2) obtain options y where o: "map_of om store = Some options"
      and y: "y \<in> set (queueOf linkedItems store)" and key: "js_get y (primaryKey options) = key"
      by (rule queuedE)
    from y True have "y \<in> set ((case map_of linkedItems name of Some items \<Rightarrow> items | None \<Rightarrow> [])
                        @ asArray content)"
      by (simp add: queueOf_def)
    from concatenateQueue_covers[OF conc _ this, of options] o True key k
    show ?thesis by simp
  qed
next
  case (2 om lm content linkedToMap linkedItems)
  let ?item = "\<lambda>link item q'.
                 case linkable om (snd link) item of
                   Inl e \<Rightarrow> Inl e
                 | Inr None \<Rightarrow> Inr q'
                 | Inr (Some linkedStore) \<Rightarrow> parseContentForLinking om lm linkedStore item q'"
  let ?link = "\<lambda>link q.
              if nullish content then Inl TypeError
              else if \<not> has_own content (fst link) \<or> \<not> typeof_object (js_get content (fst link))
              then Inr q
              else foldE (?item link) (asArray (js_get content (fst link))) q"
  from "2.prems"(1) have f: "foldE ?link linkedToMap linkedItems = Inr q"
    by (simp del: parseContentForLinking.simps)
  show ?case
  proof (rule foldE_invariant[where P="\<lambda>r. queuedFor om r store key", OF f "2.prems"(2)])
    fix link r r'
    assume link: "link \<in> set linkedToMap" and r: "queuedFor om r store key"
      and step: "?link link r = Inr r'"
    show "queuedFor om r' store key"
    proof (cases "\<not> has_own content (fst link) \<or> \<not> typeof_object (js_get content (fst link))")
      case True
      with step r show ?thesis by (auto split: if_splits)
    next
      case False
      with step have nn: "\<not> nullish content"
        and g: "foldE (?item link) (asArray (js_get content (fst link))) r = Inr r'"
        by (auto split: if_splits)
      show ?thesis
      proof (rule foldE_invariant[where P="\<lambda>r. queuedFor om r store key", OF g r])
        fix item s s'
        assume item: "item \<in> set (asArray (js_get content (fst link)))"
          and s: "queuedFor om s store key" and st: "?item link item s = Inr s'"
        show "queuedFor om s' store key"
        proof (cases "linkable om (snd link) item")
          case (Inl e)
          with st show ?thesis by simp
        next
          case (Inr target)
          show ?thesis
          proof (cases target)
            case None
            with Inr st s show ?thesis by simp
          next
            case (Some linkedStore)
            with Inr st have "parseContentForLinking om lm linkedStore item s = Inr s'"
              by (simp del: parseContentForLinking.simps)
            from "2.IH"[OF link nn False item Inr Some this s] show ?thesis .
          qed
        qed
      qed
    qed
  qed
qed


text \<open>A loop that succeeds has run its body on every element; what the body keeps is kept
  from there to the end of the loop.\<close>

lemma foldE_member:
  assumes "foldE f xs q0 = Inr q" and "x \<in> set xs"
      and "\<And>y r r'. y \<in> set xs \<Longrightarrow> f y r = Inr r' \<Longrightarrow> P r \<Longrightarrow> P r'"
  shows "\<exists>r r'. f x r = Inr r' \<and> (P r' \<longrightarrow> P q)"
  using assms
proof (induction xs arbitrary: q0)
  case Nil
  then show ?case by simp
next
  case (Cons a xs)
  from Cons.prems(1) obtain q1 where a: "f a q0 = Inr q1" and rest: "foldE f xs q1 = Inr q"
    by (cases "f a q0") auto
  have pres: "P r'" if "y \<in> set xs" "f y r = Inr r'" "P r" for y r r'
    using Cons.prems(3)[of y r r'] that by simp
  show ?case
  proof (cases "x = a")
    case True
    have "P q1 \<longrightarrow> P q"
    proof
      assume "P q1"
      with rest show "P q"
        by (rule foldE_invariant) (use pres in blast)
    qed
    with a True show ?thesis by blast
  next
    case False
    with Cons.prems(2) have "x \<in> set xs" by simp
    from Cons.IH[OF rest this pres] show ?thesis .
  qed
qed

text \<open>A successful call on content that holds \<open>x\<close>, where \<open>x\<close> refers to \<open>v\<close>, has made the
  nested call for \<open>v\<close>, and what that call left queued for a store other than the caller's
  is still queued at the end.\<close>

lemma parse_reaches:
  assumes p: "parseContentForLinking om lm name content q0 = Inr q"
    and x: "x \<in> set (asArray content)"
    and r: "refersTo om lm name x linkedStore v"
    and k: "typeof_string key" and other: "store \<noteq> name"
  shows "\<exists>qa qb. parseContentForLinking om lm linkedStore v qa = Inr qb
           \<and> (queuedFor om qb store key \<longrightarrow> queuedFor om q store key)"
proof -
  let ?P = "\<lambda>r. queuedFor om r store key"
  from r obtain links link where lm: "map_of lm name = Some links" and link: "link \<in> set links"
    and own: "has_own x (fst link)" and obj: "typeof_object (js_get x (fst link))"
    and v: "v \<in> set (asArray (js_get x (fst link)))"
    and l: "linkable om (snd link) v = Inr (Some linkedStore)"
    by (auto simp: refersTo_def list_ex_iff split: option.splits)
  from p lm obtain q1 where
    inner: "foldE (\<lambda>cloneMe q. extractLinkedContent om lm cloneMe links q) (asArray content) q0
              = Inr q1"
    and conc: "concatenateQueue om name
            (case map_of q0 name of Some items \<Rightarrow> items | None \<Rightarrow> [])
            (asArray content) q1 = Inr q"
    by (cases "foldE (\<lambda>cloneMe q. extractLinkedContent om lm cloneMe links q) (asArray content) q0")
       (simp_all del: extractLinkedContent.simps)
  have last: "?P q1 \<longrightarrow> ?P q"
    using concatenateQueue_other[OF conc other]
    by (simp add: queuedFor_def split: option.splits)
  from foldE_member[where P="?P", OF inner x]
  obtain r1 r1' where e: "extractLinkedContent om lm x links r1 = Inr r1'"
    and e': "?P r1' \<longrightarrow> ?P q1"
    using parse_keeps_queued(2)[OF k] by blast
  let ?item = "\<lambda>link item q'.
                 case linkable om (snd link) item of
                   Inl e \<Rightarrow> Inl e
                 | Inr None \<Rightarrow> Inr q'
                 | Inr (Some linkedStore) \<Rightarrow> parseContentForLinking om lm linkedStore item q'"
  let ?link = "\<lambda>link q.
              if nullish x then Inl TypeError
              else if \<not> has_own x (fst link) \<or> \<not> typeof_object (js_get x (fst link))
              then Inr q
              else foldE (?item link) (asArray (js_get x (fst link))) q"
  have item_keeps: "?P s'" if "?item l' item s = Inr s'" "?P s" for l' item s s'
  proof (cases "linkable om (snd l') item")
    case (Inl e)
    with that show ?thesis by simp
  next
    case (Inr target)
    show ?thesis
    proof (cases target)
      case None
      with Inr that show ?thesis by simp
    next
      case (Some t)
      with Inr that(1) have "parseContentForLinking om lm t item s = Inr s'"
        by (simp del: parseContentForLinking.simps)
      from parse_keeps_queued(1)[OF k this that(2)] show ?thesis .
    qed
  qed
  have link_keeps: "?P s'" if "?link l' s = Inr s'" "?P s" for l' s s'
  proof (cases "\<not> has_own x (fst l') \<or> \<not> typeof_object (js_get x (fst l'))")
    case True
    with that show ?thesis by (auto split: if_splits)
  next
    case False
    with that(1) have g: "foldE (?item l') (asArray (js_get x (fst l'))) s = Inr s'"
      by (auto split: if_splits)
    show ?thesis
      by (rule foldE_invariant[where P="?P", OF g that(2)]) (use item_keeps in blast)
  qed
  from e have f: "foldE ?link links r1 = Inr r1'" by (simp del: parseContentForLinking.simps)
  from foldE_member[where P="?P", OF f link]
  obtain r2 r2' where l2: "?link link r2 = Inr r2'" and l2': "?P r2' \<longrightarrow> ?P r1'"
    using link_keeps by blast
  from l2 own obj have g: "foldE (?item link) (asArray (js_get x (fst link))) r2 = Inr r2'"
    by (auto split: if_splits)
  from foldE_member[where P="?P", OF g v]
  obtain r3 r3' where l3: "?item link v r3 = Inr r3'" and l3': "?P r3' \<longrightarrow> ?P r2'"
    using item_keeps by blast
  from l3 l have "parseContentForLinking om lm linkedStore v r3 = Inr r3'"
    by (simp del: parseContentForLinking.simps)
  with l3' l2' e' last show ?thesis by blast
qed


text \<open>The content of a call is queued for the store of the call.\<close>

lemma parse_queues_content:
  assumes p: "parseContentForLinking om lm name content q0 = Inr q"
    and x: "x \<in> set (asArray content)"
    and o: "map_of om name = Some options"
    and s: "typeof_string (js_get x (primaryKey options))"
  shows "queuedFor om q name (js_get x (primaryKey options))"
proof -
  let ?inner = "case map_of lm name of
                  None \<Rightarrow> Inr q0
                | Some linkedToMap \<Rightarrow>
                    foldE (\<lambda>cloneMe q. extractLinkedContent om lm cloneMe linkedToMap q)
                      (asArray content) q0"
  from p obtain q1 where conc: "concatenateQueue om name
            (case map_of q0 name of Some items \<Rightarrow> items | None \<Rightarrow> [])
            (asArray content) q1 = Inr q"
    by (cases ?inner) (simp_all del: extractLinkedContent.simps)
  from x have "x \<in> set ((case map_of q0 name of Some items \<Rightarrow> items | None \<Rightarrow> [])
                        @ asArray content)" by simp
  from concatenateQueue_covers[OF conc o this s] show ?thesis .
qed

lemma linkable_Some:
  assumes "linkable om link v = Inr (Some linkedStore)" and "keyedByName om"
  obtains options where "map_of om linkedStore = Some options" and "link = linkedStore"
    and "typeof_string (js_get v (primaryKey options))"
proof -
  from assms(1) obtain options where o: "map_of om link = Some options"
    and s: "typeof_string (js_get v (primaryKey options))" and n: "storeName options = linkedStore"
    by (auto simp: linkable_def split: if_splits option.splits)
  from o have "(link, options) \<in> set om" by (rule map_of_SomeD)
  with assms(2) have "storeName options = link" by (auto simp: keyedByName_def list_all_iff)
  with o s n show ?thesis using that by simp
qed

lemma refersTo_entity:
  assumes "refersTo om lm name x linkedStore v" and "keyedByName om"
  obtains options where "map_of om linkedStore = Some options"
    and "typeof_string (js_get v (primaryKey options))" and "asArray v = [v]"
proof -
  from assms(1) obtain links link where "linkable om (snd link) v = Inr (Some linkedStore)"
    and na: "\<not> is_array v"
    by (auto simp: refersTo_def list_ex_iff split: option.splits)
  from this(1) assms(2) obtain options where "map_of om linkedStore = Some options"
    and "typeof_string (js_get v (primaryKey options))"
    by (rule linkable_Some)
  moreover from na have "asArray v = [v]" by (cases v) auto
  ultimately show ?thesis using that by blast
qed

text \<open>An entity reached through nested references is queued for its store, unless one of the
  entities on the way is of that store.\<close>

lemma nested_queued:
  assumes "refersAlong om lm name x (between @ [(linkedStore, v)])" and "keyedByName om"
    and "linkedStore \<notin> set (name # map fst between)"
    and "parseContentForLinking om lm name content q0 = Inr q"
    and "x \<in> set (asArray content)"
  shows "\<exists>options. map_of om linkedStore = Some options
           \<and> typeof_string (js_get v (primaryKey options))
           \<and> queuedFor om q linkedStore (js_get v (primaryKey options))"
  using assms
proof (induction between arbitrary: name x content q0 q)
  case Nil
  from Nil.prems(1) have r: "refersTo om lm name x linkedStore v" by simp
  from r Nil.prems(2) obtain options where o: "map_of om linkedStore = Some options"
    and s: "typeof_string (js_get v (primaryKey options))" and v: "asArray v = [v]"
    by (rule refersTo_entity)
  from Nil.prems(3) have ne: "linkedStore \<noteq> name" by simp
  from parse_reaches[OF Nil.prems(4,5) r s ne]
  obtain qa qb where n: "parseContentForLinking om lm linkedStore v qa = Inr qb"
    and t: "queuedFor om qb linkedStore (js_get v (primaryKey options))
            \<longrightarrow> queuedFor om q linkedStore (js_get v (primaryKey options))"
    by auto
  have "v \<in> set (asArray v)" using v by simp
  from parse_queues_content[OF n this o s] t o s show ?case by simp
next
  case (Cons step between)
  obtain store u where step: "step = (store, u)" by (cases step)
  from Cons.prems(1) step have r: "refersTo om lm name x store u"
    and rest: "refersAlong om lm store u (between @ [(linkedStore, v)])" by simp_all
  from r Cons.prems(2) obtain ou where u: "asArray u = [u]" by (rule refersTo_entity)
  from Cons.prems(3) step have ne: "linkedStore \<noteq> name"
    and away: "linkedStore \<notin> set (store # map fst between)" by simp_all
  have entity: "\<exists>options. map_of om linkedStore = Some options
                  \<and> typeof_string (js_get v (primaryKey options))"
    using rest Cons.prems(2)
  proof (induction between arbitrary: store u)
    case Nil
    then show ?case by (auto elim!: refersTo_entity)
  next
    case (Cons a between)
    then show ?case by (cases a) auto
  qed
  then obtain options where o: "map_of om linkedStore = Some options"
    and s: "typeof_string (js_get v (primaryKey options))" by blast
  from parse_reaches[OF Cons.prems(4,5) r s ne]
  obtain qa qb where n: "parseContentForLinking om lm store u qa = Inr qb"
    and t: "queuedFor om qb linkedStore (js_get v (primaryKey options))
            \<longrightarrow> queuedFor om q linkedStore (js_get v (primaryKey options))"
    by auto
  have "u \<in> set (asArray u)" using u by simp
  from Cons.IH[OF rest Cons.prems(2) away n this] o t s show ?case by simp
qed

text \<open>Among items that the filter kept, at most one carries a given string.\<close>

lemma at_most_one:
  assumes "sorted_wrt (\<lambda>a b. \<not> same_value_zero (f a) (f b)) items" and "typeof_string key"
  shows "length (filter (\<lambda>y. f y = key) items) \<le> 1"
  using assms
proof (induction items)
  case Nil
  then show ?case by simp
next
  case (Cons a items)
  show ?case
  proof (cases "f a = key")
    case True
    with Cons.prems have "\<forall>b \<in> set items. f b \<noteq> key"
      by (auto simp: same_value_zero_string)
    then have "filter (\<lambda>y. f y = key) items = []" by (simp add: filter_empty_conv)
    with True show ?thesis by simp
  next
    case False
    with Cons show ?thesis by simp
  qed
qed

text \<open>Exactly one queued write: the nested references to an entity that carry the same
  primary-key string collapse to one item of the queue.\<close>

lemma nested_queued_once:
  assumes "parseContentForLinking om lm name content [] = Inr q" and "keyedByName om"
    and "x \<in> set (asArray content)"
    and "refersAlong om lm name x (between @ [(linkedStore, v)])"
    and "linkedStore \<notin> set (name # map fst between)" and "map_of om linkedStore = Some options"
  shows "length (filter (\<lambda>y. js_get y (primaryKey options) = js_get v (primaryKey options))
                   (queueOf q linkedStore)) = 1"
proof -
  from nested_queued[OF assms(4,2,5,1,3)] assms(6)
  have s: "typeof_string (js_get v (primaryKey options))"
    and "queuedFor om q linkedStore (js_get v (primaryKey options))"
    by auto
  then obtain y where y: "y \<in> set (queueOf q linkedStore)"
    and "js_get y (primaryKey options) = js_get v (primaryKey options)"
    using assms(6) by (auto elim!: queuedE)
  then have "filter (\<lambda>y. js_get y (primaryKey options) = js_get v (primaryKey options))
                   (queueOf q linkedStore) \<noteq> []"
    by (auto simp: filter_empty_conv)
  then have ge: "1 \<le> length (filter (\<lambda>y. js_get y (primaryKey options) = js_get v (primaryKey options))
                   (queueOf q linkedStore))"
    by (cases "filter (\<lambda>y. js_get y (primaryKey options) = js_get v (primaryKey options))
                   (queueOf q linkedStore)") simp_all
  from y obtain items where m: "map_of q linkedStore = Some items" and i: "queueOf q linkedStore = items"
    by (cases "map_of q linkedStore") (auto simp: queueOf_def)
  from m have "(linkedStore, items) \<in> set q" by (rule map_of_SomeD)
  from at_most_one[OF parse_deduped[OF assms(1) this assms(6)] s] i
  have "length (filter (\<lambda>y. js_get y (primaryKey options) = js_get v (primaryKey options))
                   (queueOf q linkedStore)) \<le> 1"
    by simp
  with ge show ?thesis by simp
qed

text \<open>The row that a successful write of a single item leaves in an empty store.\<close>

lemma createQueueObservable_single_row:
  assumes "createQueueObservable eng om lm name [item] [] = (Emits queueMap, rows)"
  shows "rows = map (\<lambda>row. (js_get row idKey, row))
                  (addRelationsToContent om lm [item] (map_of lm name))"
proof -
  from addRelationsToContent_length[of om lm "[item]" "map_of lm name"]
  obtain x where x: "addRelationsToContent om lm [item] (map_of lm name) = [x]"
    by (cases "addRelationsToContent om lm [item] (map_of lm name)") auto
  show ?thesis
  proof (cases "valid_key (js_get x idKey)")
    case False
    with assms x show ?thesis by (simp add: createQueueObservable_def)
  next
    case True
    show ?thesis
    proof (cases "eng name [] x")
      case None
      with assms x True show ?thesis
        by (auto simp: createQueueObservable_def Let_def)
    next
      case (Some message)
      with assms x True show ?thesis
        by (simp add: createQueueObservable_def Let_def)
    qed
  qed
qed

lemma optionsMap_updatePersistenceSettings:
  "map_of (optionsMap (updatePersistenceSettings options st)) (storeName options) = Some options"
  by (simp add: updatePersistenceSettings_def update_conv' split: prod.splits)

lemma initializeDatabase_maps:
  assumes "initializeDatabase st = (failure, st2)"
  shows "optionsMap st2 = optionsMap st" and "linkMap st2 = linkMap st"
  using assms by (auto simp: initializeDatabase_def split: if_splits)

lemma persist_maps:
  assumes "persist eng content options st = (out, st')"
  shows "optionsMap st' = optionsMap (updatePersistenceSettings options st)
       \<and> linkMap st' = linkMap (updatePersistenceSettings options st)"
proof -
  let ?st0 = "updatePersistenceSettings options st"
  let ?parse = "parseContentForLinking (optionsMap ?st0) (linkMap ?st0) (storeName options)
       (JArr (asArray content)) []"
  show ?thesis
  proof (cases ?parse)
    case (Inl e)
    with assms show ?thesis by (auto simp: persist_def Let_def simp del: parseContentForLinking.simps)
  next
    case (Inr q)
    obtain failure st1 where u: "updateStorageSettings q ?st0 = (failure, st1)"
      by (cases "updateStorageSettings q ?st0") auto
    note f = updateStorageSettings_fields(2,3)[OF u]
    show ?thesis
    proof (cases failure)
      case (Some e)
      with Inr u f assms show ?thesis
        by (auto simp: persist_def Let_def simp del: parseContentForLinking.simps)
    next
      case None
      obtain failure2 st2 where init: "initializeDatabase st1 = (failure2, st2)"
        by (cases "initializeDatabase st1") auto
      note g = initializeDatabase_maps[OF init]
      show ?thesis
      proof (cases failure2)
        case (Some e)
        with Inr u None init f g assms show ?thesis
          by (auto simp: persist_def Let_def simp del: parseContentForLinking.simps)
      next
        case opened: None
        obtain out' db where i: "insertLinkedItemsInStores eng (optionsMap st2) (linkMap st2)
             (database st2) q = (out', db)"
          by (cases "insertLinkedItemsInStores eng (optionsMap st2) (linkMap st2) (database st2) q")
             auto
        with Inr u None init opened f g assms show ?thesis
          by (cases out'; cases "storeContent options \<noteq> Some False")
             (auto simp: persist_def Let_def simp del: parseContentForLinking.simps)
      qed
    qed
  qed
qed

text \<open>A successful call of \<^verbatim>\<open>persist\<close> on a single entity leaves exactly its row in the
  store, whatever the store held before.\<close>

lemma persist_single_entity:
  assumes "persist eng e options st = (Emits results, st')"
      and "storeContent options \<noteq> Some False" and "\<not> is_array e"
  shows "\<exists>item. addIdKeyToContent [e] (primaryKey options) = Inr [item]
           \<and> rowsOf st' (storeName options)
               = map (\<lambda>row. (js_get row idKey, row))
                   (addRelationsToContent (optionsMap st') (linkMap st') [item]
                      (map_of (linkMap st') (storeName options)))"
proof -
  let ?st0 = "updatePersistenceSettings options st"
  let ?C = "storeName options"
  from assms(3) have arr: "asArray e = [e]" by (cases e) auto
  from assms(1,2) obtain q st1 added db where
    q: "parseContentForLinking (optionsMap ?st0) (linkMap ?st0) ?C (JArr (asArray e)) [] = Inr q"
    and u: "updateStorageSettings q ?st0 = (None, st1)"
    and i: "insertLinkedItemsInStores eng (optionsMap st1) (linkMap st1)
           (database (handleObjectStoreUpdates st1)) q = (Emits added, db)"
    and d: "database st' = db"
    by (rule persist_Emits)
  from persist_maps[OF assms(1)] updateStorageSettings_fields(2,3)[OF u]
  have om: "optionsMap st' = optionsMap st1" and lm: "linkMap st' = linkMap st1" by simp_all
  from q arr have own: "map_of q ?C = Some [e]" by (simp only: parse_own_queue)
  then have mem: "(?C, [e]) \<in> set q" by (rule map_of_SomeD)
  from q have dist: "distinct (map fst q)" by (rule parse_distinct)
  from updateStorageSettings_fields[OF u]
  have mu: "mutationsUpdate st1 = mutationsUpdate ?st0"
    and reg: "registerStores (optionsMap ?st0) (linkMap ?st0) q (storageMap ?st0)
                = (None, storageMap st1)"
    and o1: "optionsMap st1 = optionsMap ?st0"
    by simp_all
  from mu have "?C \<in> set (mutationsUpdate st1)"
    by (simp add: mutationsUpdate_updatePersistenceSettings)
  moreover from registerStores_registers[OF reg] mem have "?C \<in> fst ` set (storageMap st1)"
    by force
  ultimately have empty: "map_of (database (handleObjectStoreUpdates st1)) ?C = Some []"
    by (rule handleObjectStoreUpdates_empties)
  from i have b: "createBatchInsertObservable eng (optionsMap st1) (linkMap st1) q []
                    (database (handleObjectStoreUpdates st1)) = (Emits added, db)"
    by (auto simp: insertLinkedItemsInStores_def split: if_splits)
  from batch_store[OF b dist mem] empty obtain linked items queueMap rows where
    l: "map_of (optionsMap st1) ?C = Some linked"
    and a: "addIdKeyToContent [e] (primaryKey linked) = Inr items"
    and c: "createQueueObservable eng (optionsMap st1) (linkMap st1) ?C items [] = (Emits queueMap, rows)"
    and r: "map_of db ?C = Some rows"
    by auto
  from l o1 have linked: "linked = options"
    by (simp add: optionsMap_updatePersistenceSettings)
  from a have "length items = length [e]"
    unfolding addIdKeyToContent_def by (rule mapE_length)
  then obtain item where items: "items = [item]" by (cases items) auto
  from c items have "rows = map (\<lambda>row. (js_get row idKey, row))
                  (addRelationsToContent (optionsMap st1) (linkMap st1) [item]
                     (map_of (linkMap st1) ?C))"
    by (simp add: createQueueObservable_single_row)
  with r d a items linked om lm show ?thesis by (simp add: rowsOf_def)
qed


text \<open>\<^verbatim>\<open>updatePersistenceSettings\<close> keeps the options map keyed by store name.\<close>

lemma keyedByName_flatten:
  "keyedByName (fst acc) \<Longrightarrow> keyedByName (fst (flattenPersistenceLinkOptions options acc))"
proof (induction options acc rule: flattenPersistenceLinkOptions.induct)
  case (1 name pk uniq links content casc om lm)
  let ?om0 = "if map_of om name = None
           then AList.update name (Options name pk uniq links content casc) om else om"
  have k0: "keyedByName ?om0"
    using "1.prems" by (auto simp: keyedByName_def list_all_iff dest!: subsetD[OF set_update_subset])
  have "keyedByName (fst (fold (\<lambda>(property, linkOptions) (om', lm').
             flattenPersistenceLinkOptions linkOptions
               (om',
                AList.update name
                  (AList.update property (storeName linkOptions)
                     (case map_of lm' name of Some m \<Rightarrow> m | None \<Rightarrow> []))
                  lm')) ls acc0))"
    if "set ls \<subseteq> set links" "keyedByName (fst acc0)" for ls acc0
    using that
  proof (induction ls arbitrary: acc0)
    case Nil
    then show ?case by simp
  next
    case (Cons l ls)
    obtain property linkOptions where l: "l = (property, linkOptions)" by (cases l)
    obtain om' lm' where a: "acc0 = (om', lm')" by (cases acc0)
    from Cons.prems(1) l have mem: "(property, linkOptions) \<in> set links" by simp
    have "keyedByName (fst (flattenPersistenceLinkOptions linkOptions
               (om',
                AList.update name
                  (AList.update property (storeName linkOptions)
                     (case map_of lm' name of Some m \<Rightarrow> m | None \<Rightarrow> []))
                  lm')))"
      using "1.IH"[OF mem refl] Cons.prems(2) a by simp
    from Cons.IH[OF _ this] Cons.prems(1) l a show ?case by simp
  qed
  from this[of links "(?om0, lm)"] k0 show ?case by simp
qed

lemma keyedByName_updatePersistenceSettings:
  assumes "keyedByName (optionsMap st)"
  shows "keyedByName (optionsMap (updatePersistenceSettings options st))"
proof -
  let ?om = "map (\<lambda>(name, stored). (name, strip_linkedKeys stored)) (optionsMap st)"
  have "keyedByName ?om"
    using assms by (auto simp: keyedByName_def list_all_iff strip_linkedKeys_def)
  then have "keyedByName (fst (flattenPersistenceLinkOptions options (?om, linkMap st)))"
    using keyedByName_flatten[of "(?om, linkMap st)" options] by simp
  then show ?thesis
    by (auto simp: updatePersistenceSettings_def keyedByName_def list_all_iff
             split: prod.splits dest!: subsetD[OF set_update_subset])
qed

text \<open>Claim C2, as amended. Every successful call of \<^verbatim>\<open>persist\<close> on a single entity leaves
  exactly the row of that entity in its store (the entity tagged with \<^verbatim>\<open>__pkey__\<close>, its
  linked values tagged in turn), so persisting the entity twice leaves exactly one row. A
  call of \<^verbatim>\<open>persist\<close> keeps every store keyed by \<^verbatim>\<open>__pkey__\<close>, one row per key. And, in a
  state whose options map is keyed by store name (as every call leaves it), among the
  writes that a call queues for a store there is exactly one with the primary-key value of
  an entity that the content refers to, at any depth, provided that none of the entities on
  the way, the item of the content included, belongs to that store: nested references that
  carry the same primary-key string collapse to one queued write.\<close>

theorem persist_one_row_per_identity:
  assumes "\<not> is_array e" and "storeContent options \<noteq> Some False"
      and "persist eng e options st = (Emits first, st1)"
      and "persist eng e options st1 = (Emits second, st2)"
      and "\<forall>store \<in> set (database st). distinct (map fst (snd store))
             \<and> (\<forall>row \<in> set (snd store). js_get (snd row) idKey = fst row)"
      and "keyedByName (optionsMap st)"
      and "parseContentForLinking (optionsMap (updatePersistenceSettings options st))
             (linkMap (updatePersistenceSettings options st)) (storeName options)
             (JArr (asArray content)) [] = Inr q"
      and "x \<in> set (asArray content)"
      and "refersAlong (optionsMap (updatePersistenceSettings options st))
             (linkMap (updatePersistenceSettings options st)) (storeName options) x
             (between @ [(linkedStore, v)])"
      and "linkedStore \<notin> set (storeName options # map fst between)"
      and "map_of (optionsMap (updatePersistenceSettings options st)) linkedStore = Some linked"
  shows "(\<exists>item. addIdKeyToContent [e] (primaryKey options) = Inr [item]
            \<and> rowsOf st1 (storeName options)
                = map (\<lambda>row. (js_get row idKey, row))
                    (addRelationsToContent (optionsMap st1) (linkMap st1) [item]
                       (map_of (linkMap st1) (storeName options)))
            \<and> rowsOf st2 (storeName options)
                = map (\<lambda>row. (js_get row idKey, row))
                    (addRelationsToContent (optionsMap st2) (linkMap st2) [item]
                       (map_of (linkMap st2) (storeName options))))
       \<and> length (rowsOf st2 (storeName options)) = 1
       \<and> (\<forall>store \<in> set (database (snd (persist eng content options st))).
             distinct (map fst (snd store))
             \<and> (\<forall>row \<in> set (snd store). js_get (snd row) idKey = fst row))
       \<and> length (filter (\<lambda>y. js_get y (primaryKey linked) = js_get v (primaryKey linked))
                   (queueOf q linkedStore)) = 1"
proof (intro conjI)
  from persist_single_entity[OF assms(3,2,1)] obtain item where
    a: "addIdKeyToContent [e] (primaryKey options) = Inr [item]"
    and r1: "rowsOf st1 (storeName options)
                = map (\<lambda>row. (js_get row idKey, row))
                    (addRelationsToContent (optionsMap st1) (linkMap st1) [item]
                       (map_of (linkMap st1) (storeName options)))"
    by blast
  from persist_single_entity[OF assms(4,2,1)] a
  have r2: "rowsOf st2 (storeName options)
                = map (\<lambda>row. (js_get row idKey, row))
                    (addRelationsToContent (optionsMap st2) (linkMap st2) [item]
                       (map_of (linkMap st2) (storeName options)))"
    by auto
  from a r1 r2
  show "\<exists>item. addIdKeyToContent [e] (primaryKey options) = Inr [item]
            \<and> rowsOf st1 (storeName options)
                = map (\<lambda>row. (js_get row idKey, row))
                    (addRelationsToContent (optionsMap st1) (linkMap st1) [item]
                       (map_of (linkMap st1) (storeName options)))
            \<and> rowsOf st2 (storeName options)
                = map (\<lambda>row. (js_get row idKey, row))
                    (addRelationsToContent (optionsMap st2) (linkMap st2) [item]
                       (map_of (linkMap st2) (storeName options)))"
    by blast
  from r2 show "length (rowsOf st2 (storeName options)) = 1"
    by (simp add: addRelationsToContent_length)
  from assms(5) show "\<forall>store \<in> set (database (snd (persist eng content options st))).
             distinct (map fst (snd store))
             \<and> (\<forall>row \<in> set (snd store). js_get (snd row) idKey = fst row)"
    by (rule persist_keyed)
  from assms(8) have "x \<in> set (asArray (JArr (asArray content)))" by simp
  from nested_queued_once[OF assms(7) keyedByName_updatePersistenceSettings[OF assms(6)] this
      assms(9,10,11)]
  show "length (filter (\<lambda>y. js_get y (primaryKey linked) = js_get v (primaryKey linked))
                   (queueOf q linkedStore)) = 1" .
qed


lemma person_first:
  "persist accepts_all personContent personOptions initialService
     = (Emits [PersistenceResult ''Location'' 0, PersistenceResult ''Person'' 0],
        snd (persist accepts_all personContent personOptions initialService))"
  by code_simp

lemma person_second:
  "persist accepts_all personContent personOptions
       (snd (persist accepts_all personContent personOptions initialService))
     = (Emits [PersistenceResult ''Location'' 0, PersistenceResult ''Person'' 0],
        snd (persist accepts_all personContent personOptions
               (snd (persist accepts_all personContent personOptions initialService))))"
  by code_simp

lemma persons_queue:
  "parseContentForLinking (optionsMap (updatePersistenceSettings personOptions initialService))
     (linkMap (updatePersistenceSettings personOptions initialService)) (storeName personOptions)
     (JArr (asArray (JArr [personContent, secondPersonContent]))) []
   = Inr [(''Location'', [locationContent]),
          (''Person'', [personContent, secondPersonContent])]"
  by code_simp

lemma initial_keyed: "keyedByName (optionsMap initialService)"
  by (simp add: initialService_def keyedByName_def)

lemma location_registered:
  "map_of (optionsMap (updatePersistenceSettings personOptions initialService)) ''Location''
     = Some locationOptions"
  by code_simp

lemma second_person_refers:
  "refersAlong (optionsMap (updatePersistenceSettings personOptions initialService))
     (linkMap (updatePersistenceSettings personOptions initialService)) (storeName personOptions)
     secondPersonContent ([] @ [(''Location'', locationContent)])"
  by code_simp

lemma person_row:
  "rowsOf (snd (persist accepts_all personContent personOptions
                  (snd (persist accepts_all personContent personOptions initialService))))
     ''Person''
   = [(JStr ''p1'',
       JObj [(''id'', JStr ''p1''),
             (''location'',
              JObj [(''@id'', JStr ''/api/locations/1''), (''name'', JStr ''Test''),
                    (''__store__'', JStr ''Location''),
                    (''__pkey__'', JStr ''/api/locations/1'')]),
             (''__pkey__'', JStr ''p1'')])]"
  by code_simp

theorem persist_one_row_per_identity_witness:
  "length (rowsOf (snd (persist accepts_all personContent personOptions
                          (snd (persist accepts_all personContent personOptions initialService))))
             ''Person'') = 1
   \<and> parseContentForLinking (optionsMap (updatePersistenceSettings personOptions initialService))
       (linkMap (updatePersistenceSettings personOptions initialService)) ''Person''
       (JArr [personContent, secondPersonContent]) []
     = Inr [(''Location'', [locationContent]),
            (''Person'', [personContent, secondPersonContent])]
   \<and> length (filter (\<lambda>y. js_get y ''@id'' = js_get locationContent ''@id'')
               (queueOf [(''Location'', [locationContent]),
                         (''Person'', [personContent, secondPersonContent])] ''Location'')) = 1"
proof -
  have a: "\<not> is_array personContent" by (simp add: personContent_def)
  have b: "storeContent personOptions \<noteq> Some False" by (simp add: personOptions_def)
  have c: "\<forall>store \<in> set (database initialService). distinct (map fst (snd store))
             \<and> (\<forall>row \<in> set (snd store). js_get (snd row) idKey = fst row)"
    by (simp add: initialService_def)
  have d: "secondPersonContent \<in> set (asArray (JArr [personContent, secondPersonContent]))"
    by simp
  have e: "''Location'' \<notin> set (storeName personOptions # map fst [])"
    by (simp add: personOptions_def)
  note n = second_person_refers
  from persist_one_row_per_identity[OF a b person_first person_second c initial_keyed
      persons_queue d n e location_registered]
  have "length (rowsOf (snd (persist accepts_all personContent personOptions
                          (snd (persist accepts_all personContent personOptions initialService))))
             (storeName personOptions)) = 1"
    and "length (filter (\<lambda>y. js_get y (primaryKey locationOptions)
                             = js_get locationContent (primaryKey locationOptions))
               (queueOf [(''Location'', [locationContent]),
                         (''Person'', [personContent, secondPersonContent])] ''Location'')) = 1"
    by blast+
  moreover have "storeName personOptions = ''Person''" "primaryKey locationOptions = ''@id''"
    by (simp_all add: personOptions_def locationOptions_def)
  moreover note persons_queue
  ultimately show ?thesis by simp
qed

text \<open>Claim C2 as stated fails where it says that repeated nested references to the same
  entity collapse to one queued write. The filter of \<^verbatim>\<open>parseContentForLinking\<close> compares the
  raw primary-key values: two Persons that refer to one Location, once by its IRI and once
  by its bare UUID, queue two writes for the same \<^verbatim>\<open>__pkey__\<close>; \<^verbatim>\<open>persist\<close> reports two rows,
  and the second write replaces the first, so that the store holds one row. And an entity
  nested in an entity of its own store is not queued at all: the queue of the store is
  read before the nested content is extracted and assigned afterwards, so the friend of a
  Person is dropped from the queue and has no row of its own.\<close>

theorem nested_references_counterexample:
  "extractUuid (js_get locationByIri ''@id'') = extractUuid (js_get locationByUuid ''@id'')
   \<and> map_option (\<lambda>q. queueOf q ''Location'')
        (case parseContentForLinking
                (optionsMap (updatePersistenceSettings personStored initialService))
                (linkMap (updatePersistenceSettings personStored initialService)) ''Person''
                (JArr (asArray visitors)) [] of
           Inl e \<Rightarrow> None
         | Inr q \<Rightarrow> Some q)
     = Some [locationByIri, locationByUuid]
   \<and> fst (persist accepts_all visitors personStored initialService)
     = Emits [PersistenceResult ''Location'' 2, PersistenceResult ''Person'' 2]
   \<and> map fst (rowsOf (snd (persist accepts_all visitors personStored initialService)) ''Location'')
     = [JStr ''123e4567-e89b-12d3-a456-426614174000'']
   \<and> refersTo (optionsMap (updatePersistenceSettings friendOptions initialService))
        (linkMap (updatePersistenceSettings friendOptions initialService)) ''Person''
        friendContent ''Person'' (JObj [(''id'', JStr ''p2'')])
   \<and> parseContentForLinking (optionsMap (updatePersistenceSettings friendOptions initialService))
        (linkMap (updatePersistenceSettings friendOptions initialService)) ''Person''
        (JArr (asArray friendContent)) []
     = Inr [(''Person'', [friendContent])]
   \<and> fst (persist accepts_all friendContent friendOptions initialService)
     = Emits [PersistenceResult ''Person'' 0]
   \<and> map fst (rowsOf (snd (persist accepts_all friendContent friendOptions initialService))
                ''Person'')
     = [JStr ''p1'']"
  by code_simp

subsection \<open>What tag stripping mutates\<close>

lemma length_h_set [simp]: "length (h_set h r key v) = length h"
  by (simp add: h_set_def split: cell.splits)

lemma length_h_delete [simp]: "length (h_delete h r key) = length h"
  by (simp add: h_delete_def split: cell.splits)



















declare removeGeneratedIdKeyFromContent.simps [simp del] cleanNested.simps [simp del]
















end
